theory Spec2Isabelle
  imports Main "HOL-Library.Word"
begin

section \<open>Speedlog: an asynchronous, buffered, levelled logger\<close>

text \<open>
  The repository holds three revisions of the logger:
  \<^item> \<^verbatim>\<open>speedlog.go\<close> (package speedlog, listed in \<^verbatim>\<open>src/README.md\<close> from line 325 on):
    asynchronous, cached timestamp, blocking enqueue, \<^verbatim>\<open>sync.Once\<close> around Close.
    Its definitions carry the source's names without suffix.
  \<^item> \<^verbatim>\<open>src/unnamed/part_000\<close> (package main): asynchronous, the clock is read on every
    call, a full queue drops the record, Close has no latch. Suffix \<open>_p0\<close>.
  \<^item> \<^verbatim>\<open>src/main.go\<close> (package main): synchronous, writes and flushes under a mutex.
    Suffix \<open>_main\<close>.

  Go's \<^verbatim>\<open>int\<close> is taken as a 64-bit two's complement word (the size on every 64-bit
  platform), \<^verbatim>\<open>int32\<close> as a 32-bit word; \<^verbatim>\<open>int32(x)\<close> keeps the low 32 bits and
  \<^verbatim>\<open>int(y)\<close> sign-extends. Byte slices and strings are \<open>string\<close> (lists of 8-bit
  characters).
\<close>

subsection \<open>Levels\<close>

type_synonym go_int = "64 word"
type_synonym int32 = "32 word"

definition DEBUG :: go_int where "DEBUG = 0"
definition INFO :: go_int where "INFO = 1"
definition WARN :: go_int where "WARN = 2"
definition ERROR :: go_int where "ERROR = 3"

definition levelNames :: "string list" where
  "levelNames = [''DEBUG'', ''INFO'', ''WARN'', ''ERROR'']"

datatype panic = IndexOutOfRange | CloseOfClosedChannel | NegativeWaitGroup

text \<open>Indexing the array \<^verbatim>\<open>levelNames[level]\<close>: Go checks the index at run time and
  panics outside \<open>0 .. len - 1\<close>.\<close>

definition levelNames_at :: "go_int \<Rightarrow> panic + string" where
  "levelNames_at lv =
     (if 0 \<le>s lv \<and> sint lv < int (length levelNames)
      then Inr (levelNames ! nat (sint lv)) else Inl IndexOutOfRange)"

subsection \<open>The state of speedlog.go\<close>

type_synonym addr = nat
type_synonym pid = nat

text \<open>A call the logger makes on sink \<open>i\<close>: \<^verbatim>\<open>bufs[i].Write(line)\<close>,
  \<^verbatim>\<open>bufs[i].Flush()\<close>, or \<^verbatim>\<open>writers[i].Close()\<close>. The sinks are external; the
  model records the calls they receive, in order.\<close>

datatype sink_call = SinkWrite string | SinkFlush | SinkClose

datatype once = NotStarted | InProgress | Completed

datatype worker = Running | Draining | Stopped

datatype 'a result = Blocked | Panic panic | Ok 'a

text \<open>The three loops over the sinks, as the calls they make: \<^verbatim>\<open>bw.Write(line)\<close> for
  every \<^verbatim>\<open>bw\<close> of \<^verbatim>\<open>bufs\<close>, \<^verbatim>\<open>bw.Flush()\<close> for every \<^verbatim>\<open>bw\<close>, and
  \<^verbatim>\<open>c.Close()\<close> for every writer that is an \<^verbatim>\<open>io.Closer\<close>. The results of the calls
  are discarded by the source.\<close>

definition writes :: "string \<Rightarrow> bool list \<Rightarrow> (nat \<times> sink_call) list" where
  "writes line ws = map (\<lambda>i. (i, SinkWrite line)) [0..<length ws]"

definition flushes :: "bool list \<Rightarrow> (nat \<times> sink_call) list" where
  "flushes ws = map (\<lambda>i. (i, SinkFlush)) [0..<length ws]"

definition closes :: "bool list \<Rightarrow> (nat \<times> sink_call) list" where
  "closes ws = map (\<lambda>i. (i, SinkClose)) (filter (\<lambda>i. ws ! i) [0..<length ws])"

text \<open>
  The fields of \<^verbatim>\<open>type Logger struct\<close>. A writer is represented by whether it
  implements \<^verbatim>\<open>io.Closer\<close>; \<^verbatim>\<open>bufs[i]\<close> is the \<^verbatim>\<open>bufio.Writer\<close> around
  \<^verbatim>\<open>writers[i]\<close>, so the two slices have one length. The channel \<open>ch\<close> holds the
  queued byte slices, oldest first, as addresses of their backing arrays; \<open>bufPool\<close> holds
  the addresses of the pooled slices. \<open>done_closed\<close> tells whether the channel
  \<^verbatim>\<open>done\<close> has been closed, \<open>wg\<close> is the WaitGroup's counter, \<open>closeOnce\<close> the state of
  the \<^verbatim>\<open>sync.Once\<close>, \<open>ts\<close> the value held by the \<^verbatim>\<open>atomic.Value\<close>.
\<close>

record logger =
  level :: int32
  writers :: "bool list"
  ch :: "addr list"
  ch_cap :: nat
  bufPool :: "addr list"
  done_closed :: bool
  wg :: nat
  closeOnce :: once
  ts :: string

text \<open>
  What surrounds the struct: the memory of the byte slices (\<open>heap\<close>, with \<open>fresh\<close> the
  next unused address), the calls received by the sinks (\<open>io\<close>), the producers that are
  inside \<^verbatim>\<open>log\<close> between formatting and the \<^verbatim>\<open>select\<close> (\<open>pending\<close>, with the address
  of the formatted record), where the two goroutines stand (\<open>writer_st\<close>, \<open>ts_alive\<close>), and
  a history variable \<open>sent\<close>: the producer and bytes of every record placed in the
  channel so far, in the order of the sends.

  \<^verbatim>\<open>append\<close> may move a slice to a larger backing array when its capacity is exceeded;
  that array is as unshared as the one taken from the pool, so a record keeps one address
  from \<^verbatim>\<open>bufPool.Get\<close> to \<^verbatim>\<open>bufPool.Put\<close>.
\<close>

record world = logger +
  heap :: "addr \<Rightarrow> string"
  fresh :: addr
  io :: "(nat \<times> sink_call) list"
  pending :: "pid \<Rightarrow> addr option"
  writer_st :: worker
  ts_alive :: bool
  sent :: "(pid \<times> string) list"

subsection \<open>Level control\<close>

definition IsLevelEnabled :: "world \<Rightarrow> go_int \<Rightarrow> bool" where
  "IsLevelEnabled l lv \<longleftrightarrow> scast (level l) \<le>s lv"

definition SetLevel :: "go_int \<Rightarrow> world \<Rightarrow> world" where
  "SetLevel lv l = l\<lparr>level := ucast lv\<rparr>"

definition GetLevel :: "world \<Rightarrow> go_int" where
  "GetLevel l = scast (level l)"

subsection \<open>The buffer pool\<close>

text \<open>\<^verbatim>\<open>sync.Pool.Get\<close> hands out any pooled item, or calls \<^verbatim>\<open>New\<close> (a new empty
  slice) when it finds none; which one is the runtime's choice \<open>pick\<close>. The pool may
  also forget an item at any time (\<open>pool_drop\<close>).\<close>

definition pool_New :: "world \<Rightarrow> addr \<times> world" where
  "pool_New l = (fresh l, l\<lparr>heap := (heap l)(fresh l := []), fresh := Suc (fresh l)\<rparr>)"

definition pool_Get :: "nat option \<Rightarrow> world \<Rightarrow> addr \<times> world" where
  "pool_Get pick l =
     (case pick of
        None \<Rightarrow> pool_New l
      | Some i \<Rightarrow>
          if i < length (bufPool l)
          then (bufPool l ! i, l\<lparr>bufPool := take i (bufPool l) @ drop (Suc i) (bufPool l)\<rparr>)
          else pool_New l)"

definition pool_Put :: "addr \<Rightarrow> world \<Rightarrow> world" where
  "pool_Put a l = l\<lparr>bufPool := bufPool l @ [a]\<rparr>"

definition pool_drop :: "nat \<Rightarrow> world \<Rightarrow> world" where
  "pool_drop i l = l\<lparr>bufPool := take i (bufPool l) @ drop (Suc i) (bufPool l)\<rparr>"

subsection \<open>log and logf\<close>

text \<open>The bytes \<^verbatim>\<open>log\<close> appends to the emptied buffer (README.md lines 496-507).\<close>

definition record_bytes :: "string \<Rightarrow> go_int \<Rightarrow> string \<Rightarrow> panic + string" where
  "record_bytes stamp lv msg =
     (case (if 0 \<le>s lv \<and> sint lv < int (length levelNames)
            then levelNames_at lv else Inr ''UNK'') of
        Inl e \<Rightarrow> Inl e
      | Inr tag \<Rightarrow> Inr (stamp @ '' '' @ tag @ '' '' @ msg @ [CHR 0x0A]))"

text \<open>\<^verbatim>\<open>log\<close> up to its \<^verbatim>\<open>select\<close>: the level check, the buffer from the pool, the
  timestamp loaded from \<open>ts\<close>, the formatted record. Producer \<open>p\<close> then stands at the
  \<^verbatim>\<open>select\<close> with its buffer. A producer runs one call at a time.\<close>

definition log_format :: "pid \<Rightarrow> go_int \<Rightarrow> string \<Rightarrow> nat option \<Rightarrow> world \<Rightarrow> world result" where
  "log_format p lv msg pick l =
     (if pending l p \<noteq> None then Blocked
      else if \<not> IsLevelEnabled l lv then Ok l
      else
        (case pool_Get pick l of (a, l1) \<Rightarrow>
          (case record_bytes (ts l1) lv msg of
             Inl e \<Rightarrow> Panic e
           | Inr r \<Rightarrow> Ok (l1\<lparr>heap := (heap l1)(a := r), pending := (pending l1)(p \<mapsto> a)\<rparr>))))"

text \<open>\<^verbatim>\<open>logf\<close> checks the level, renders the message with \<^verbatim>\<open>fmt.Sprintf\<close> (its result
  is the argument \<open>msg\<close>) and calls \<^verbatim>\<open>log\<close>.\<close>

definition logf_format :: "pid \<Rightarrow> go_int \<Rightarrow> string \<Rightarrow> nat option \<Rightarrow> world \<Rightarrow> world result" where
  "logf_format p lv msg pick l =
     (if pending l p \<noteq> None then Blocked
      else if \<not> IsLevelEnabled l lv then Ok l
      else log_format p lv msg pick l)"

text \<open>The \<^verbatim>\<open>select\<close> of \<^verbatim>\<open>log\<close> (README.md lines 508-512). The send is ready when the
  channel has room, the receive from \<^verbatim>\<open>done\<close> when it is closed; with both ready Go
  takes either (\<open>TakeSend\<close> or \<open>TakeDone\<close>), with none ready the producer waits.\<close>

datatype select_pick = TakeSend | TakeDone

definition log_select :: "pid \<Rightarrow> select_pick \<Rightarrow> world \<Rightarrow> world result" where
  "log_select p c l =
     (case pending l p of
        None \<Rightarrow> Blocked
      | Some a \<Rightarrow>
          (case c of
             TakeSend \<Rightarrow>
               if length (ch l) < ch_cap l
               then Ok (l\<lparr>ch := ch l @ [a], pending := (pending l)(p := None),
                          sent := sent l @ [(p, heap l a)]\<rparr>)
               else Blocked
           | TakeDone \<Rightarrow>
               if done_closed l
               then Ok (pool_Put a (l\<lparr>pending := (pending l)(p := None)\<rparr>))
               else Blocked))"

subsection \<open>The writer goroutine\<close>

definition write_all :: "string \<Rightarrow> world \<Rightarrow> world" where
  "write_all line l = l\<lparr>io := io l @ writes line (writers l)\<rparr>"

definition flushAll :: "world \<Rightarrow> world" where
  "flushAll l = l\<lparr>io := io l @ flushes (writers l)\<rparr>"

text \<open>\<^verbatim>\<open>case line := <-l.ch\<close>, in the outer loop and in the drain loop alike: the oldest
  queued slice is taken, written to every \<^verbatim>\<open>bufs[i]\<close> in order and put into the pool.
  (A slice built by \<^verbatim>\<open>log\<close> is never nil, so the test \<^verbatim>\<open>line != nil\<close> holds.)\<close>

definition writerLoop_recv :: "world \<Rightarrow> world result" where
  "writerLoop_recv l =
     (if writer_st l = Stopped then Blocked
      else (case ch l of
              [] \<Rightarrow> Blocked
            | a # rest \<Rightarrow> Ok (pool_Put a (write_all (heap l a) (l\<lparr>ch := rest\<rparr>)))))"

text \<open>\<^verbatim>\<open>case <-ticker.C\<close> of the outer loop.\<close>

definition writerLoop_tick :: "world \<Rightarrow> world result" where
  "writerLoop_tick l = (if writer_st l = Running then Ok (flushAll l) else Blocked)"

text \<open>\<^verbatim>\<open>case <-l.done\<close> of the outer loop: the writer enters the drain loop.\<close>

definition writerLoop_done :: "world \<Rightarrow> world result" where
  "writerLoop_done l =
     (if writer_st l = Running \<and> done_closed l then Ok (l\<lparr>writer_st := Draining\<rparr>) else Blocked)"

text \<open>\<^verbatim>\<open>default\<close> of the drain loop, taken only when the channel is empty: flush, return,
  and the deferred \<^verbatim>\<open>wg.Done()\<close>.\<close>

definition wg_Done :: "world \<Rightarrow> world result" where
  "wg_Done l = (if wg l = 0 then Panic NegativeWaitGroup else Ok (l\<lparr>wg := wg l - 1\<rparr>))"

definition writerLoop_default :: "world \<Rightarrow> world result" where
  "writerLoop_default l =
     (if writer_st l = Draining \<and> ch l = []
      then wg_Done ((flushAll l)\<lparr>writer_st := Stopped\<rparr>) else Blocked)"

subsection \<open>The timestamp goroutine\<close>

text \<open>\<^verbatim>\<open>case <-ticker.C\<close>: the current time, formatted (\<open>stamp\<close>), is stored in \<open>ts\<close>.\<close>

definition timestampLoop_tick :: "string \<Rightarrow> world \<Rightarrow> world result" where
  "timestampLoop_tick stamp l = (if ts_alive l then Ok (l\<lparr>ts := stamp\<rparr>) else Blocked)"

definition timestampLoop_done :: "world \<Rightarrow> world result" where
  "timestampLoop_done l =
     (if ts_alive l \<and> done_closed l then wg_Done (l\<lparr>ts_alive := False\<rparr>) else Blocked)"

subsection \<open>Sync and Close\<close>

definition Sync :: "world \<Rightarrow> world result" where
  "Sync l = Ok (flushAll l)"

definition close_writers :: "world \<Rightarrow> world" where
  "close_writers l = l\<lparr>io := io l @ closes (writers l)\<rparr>"

text \<open>\<^verbatim>\<open>l.closeOnce.Do\<close>: the first caller starts the function and closes \<^verbatim>\<open>done\<close>
  (closing a closed channel panics); a caller that arrives while it runs waits; a caller
  that arrives after it has returned returns at once.\<close>

definition Close_enter :: "world \<Rightarrow> world result" where
  "Close_enter l =
     (case closeOnce l of
        NotStarted \<Rightarrow>
          if done_closed l then Panic CloseOfClosedChannel
          else Ok (l\<lparr>closeOnce := InProgress, done_closed := True\<rparr>)
      | InProgress \<Rightarrow> Blocked
      | Completed \<Rightarrow> Ok l)"

text \<open>The rest of the function: \<^verbatim>\<open>l.wg.Wait()\<close> returns when the counter is zero; then
  every buffer is flushed and every writer that is an \<^verbatim>\<open>io.Closer\<close> is closed.\<close>

definition Close_finish :: "world \<Rightarrow> world result" where
  "Close_finish l =
     (if closeOnce l = InProgress \<and> wg l = 0
      then Ok ((close_writers (flushAll l))\<lparr>closeOnce := Completed\<rparr>)
      else Blocked)"

subsection \<open>New\<close>

text \<open>An option: \<^verbatim>\<open>WithWriter(w)\<close> with \<open>None\<close> for a nil writer and \<open>Some c\<close> for a
  writer, \<open>c\<close> telling whether it is an \<^verbatim>\<open>io.Closer\<close>.\<close>

datatype opt = WithWriter "bool option" | WithChannelSize go_int | WithLevel go_int

fun apply_opt :: "opt \<Rightarrow> world \<Rightarrow> world" where
  "apply_opt (WithWriter w) l = (case w of None \<Rightarrow> l | Some c \<Rightarrow> l\<lparr>writers := writers l @ [c]\<rparr>)"
| "apply_opt (WithChannelSize n) l = (if 0 <s n then l\<lparr>ch := [], ch_cap := nat (sint n)\<rparr> else l)"
| "apply_opt (WithLevel lv) l = l\<lparr>level := ucast lv\<rparr>"

text \<open>\<open>now\<close> is the time of construction in the layout \<^verbatim>\<open>2006-01-02 15:04:05.000\<close>.
  \<^verbatim>\<open>os.Stdout\<close>, the default writer, is an \<^verbatim>\<open>io.Closer\<close>.\<close>

definition New :: "string \<Rightarrow> opt list \<Rightarrow> world" where
  "New now opts =
     (let l0 = \<lparr>level = ucast INFO, writers = [], ch = [], ch_cap = 1024, bufPool = [],
                done_closed = False, wg = 0, closeOnce = NotStarted, ts = [],
                heap = (\<lambda>_. []), fresh = 0, io = [], pending = (\<lambda>_. None),
                writer_st = Running, ts_alive = True, sent = []\<rparr>;
          l1 = fold apply_opt opts l0;
          l2 = (if writers l1 = [] then l1\<lparr>writers := [True]\<rparr> else l1)
      in l2\<lparr>ts := now, wg := 2\<rparr>)"

subsection \<open>Executions\<close>

text \<open>One step of one thread. Between two steps any other thread may run.\<close>

datatype event =
    ESetLevel go_int
  | ELog pid go_int string "nat option"
  | ELogf pid go_int string "nat option"
  | ESelect pid select_pick
  | EWriterRecv
  | EWriterTick
  | EWriterDone
  | EWriterDefault
  | ETsTick string
  | ETsDone
  | ESync
  | ECloseEnter
  | ECloseFinish
  | EPoolDrop nat

fun step :: "event \<Rightarrow> world \<Rightarrow> world result" where
  "step (ESetLevel lv) l = Ok (SetLevel lv l)"
| "step (ELog p lv msg pick) l = log_format p lv msg pick l"
| "step (ELogf p lv msg pick) l = logf_format p lv msg pick l"
| "step (ESelect p c) l = log_select p c l"
| "step EWriterRecv l = writerLoop_recv l"
| "step EWriterTick l = writerLoop_tick l"
| "step EWriterDone l = writerLoop_done l"
| "step EWriterDefault l = writerLoop_default l"
| "step (ETsTick stamp) l = timestampLoop_tick stamp l"
| "step ETsDone l = timestampLoop_done l"
| "step ESync l = Sync l"
| "step ECloseEnter l = Close_enter l"
| "step ECloseFinish l = Close_finish l"
| "step (EPoolDrop i) l = Ok (pool_drop i l)"

fun run :: "event list \<Rightarrow> world \<Rightarrow> world result" where
  "run [] l = Ok l"
| "run (e # es) l = (case step e l of Ok l' \<Rightarrow> run es l' | Blocked \<Rightarrow> Blocked | Panic x \<Rightarrow> Panic x)"

text \<open>An execution ends in a state with property \<open>P\<close>: it neither blocks nor panics.\<close>

definition ends_in :: "'a result \<Rightarrow> ('a \<Rightarrow> bool) \<Rightarrow> bool" where
  "ends_in r P = (case r of Ok l \<Rightarrow> P l | _ \<Rightarrow> False)"

text \<open>The \<^verbatim>\<open>Write\<close> calls sink \<open>i\<close> has received, in order.\<close>

definition sink_writes :: "nat \<Rightarrow> (nat \<times> sink_call) list \<Rightarrow> string list" where
  "sink_writes i tr =
     concat (map (\<lambda>(j, c). case c of SinkWrite b \<Rightarrow> if j = i then [b] else [] | _ \<Rightarrow> []) tr)"

text \<open>The tag speedlog.go puts into a record: the name of a level of DEBUG..ERROR, and
  UNK for any other value.\<close>

definition tag_of :: "go_int \<Rightarrow> string" where
  "tag_of lv = (if DEBUG \<le>s lv \<and> lv \<le>s ERROR then levelNames ! nat (sint lv) else ''UNK'')"

text \<open>The snapshot published last in an execution: the stamp of the last tick of the
  timestamp goroutine, or the one stored by \<^verbatim>\<open>New\<close>.\<close>

definition published :: "string \<Rightarrow> event list \<Rightarrow> string" where
  "published now es = fold (\<lambda>e t. case e of ETsTick x \<Rightarrow> x | _ \<Rightarrow> t) es now"

subsection \<open>Invariants of speedlog.go\<close>

text \<open>The WaitGroup counts the goroutines still running; \<^verbatim>\<open>done\<close> is closed exactly
  when the Once has been entered; a goroutine leaves its loop only after the signal.\<close>

definition inv_ctl :: "world \<Rightarrow> bool" where
  "inv_ctl l \<longleftrightarrow>
     (writer_st l \<noteq> Stopped \<and> ts_alive l \<longrightarrow> wg l = 2) \<and>
     (writer_st l \<noteq> Stopped \<and> \<not> ts_alive l \<longrightarrow> wg l = 1) \<and>
     (writer_st l = Stopped \<and> ts_alive l \<longrightarrow> wg l = 1) \<and>
     (writer_st l = Stopped \<and> \<not> ts_alive l \<longrightarrow> wg l = 0) \<and>
     (closeOnce l = NotStarted \<longleftrightarrow> \<not> done_closed l) \<and>
     (writer_st l \<noteq> Running \<longrightarrow> done_closed l) \<and>
     (\<not> ts_alive l \<longrightarrow> done_closed l) \<and>
     (closeOnce l = Completed \<longrightarrow> writer_st l = Stopped \<and> \<not> ts_alive l) \<and>
     0 < ch_cap l \<and> writers l \<noteq> []"

text \<open>Every slice has one owner: the channel, the pool, or one producer at its
  \<^verbatim>\<open>select\<close>.\<close>

definition inv_own :: "world \<Rightarrow> bool" where
  "inv_own l \<longleftrightarrow>
     distinct (ch l @ bufPool l) \<and>
     (\<forall>a \<in> set (ch l @ bufPool l). a < fresh l) \<and>
     (\<forall>p a. pending l p = Some a \<longrightarrow> a < fresh l \<and> a \<notin> set (ch l) \<and> a \<notin> set (bufPool l)) \<and>
     (\<forall>p q a. pending l p = Some a \<longrightarrow> pending l q = Some a \<longrightarrow> p = q)"

text \<open>What a sink has received, followed by what is queued, is what was sent.\<close>

definition inv_fifo :: "world \<Rightarrow> bool" where
  "inv_fifo l \<longleftrightarrow>
     (\<forall>i < length (writers l). sink_writes i (io l) @ map (heap l) (ch l) = map snd (sent l))"

text \<open>A writer is closed once, when the function under the Once has run, and only if it
  is an \<^verbatim>\<open>io.Closer\<close>.\<close>

definition inv_close :: "world \<Rightarrow> bool" where
  "inv_close l \<longleftrightarrow>
     (\<forall>i. count_list (io l) (i, SinkClose) =
        (if closeOnce l = Completed \<and> i < length (writers l) \<and> writers l ! i then 1 else 0))"

definition invariant :: "world \<Rightarrow> bool" where
  "invariant l \<longleftrightarrow> inv_ctl l \<and> inv_own l \<and> inv_fifo l \<and> inv_close l"



text \<open>The state in which \<^verbatim>\<open>New\<close> leaves everything but level, writers, capacity and
  timestamp.\<close>

definition pristine :: "world \<Rightarrow> bool" where
  "pristine l \<longleftrightarrow>
     ch l = [] \<and> 0 < ch_cap l \<and> bufPool l = [] \<and> \<not> done_closed l \<and> closeOnce l = NotStarted \<and>
     io l = [] \<and> sent l = [] \<and> pending l = (\<lambda>_. None) \<and> writer_st l = Running \<and> ts_alive l"

section \<open>part_000: the revision that drops on a full queue\<close>

text \<open>The channel has the fixed capacity 4096 and carries a fresh copy of each record
  (\<^verbatim>\<open>bufCopy\<close>), so queue and pool hold values. The level is an \<^verbatim>\<open>atomic.Int32\<close>.\<close>

record logger_p0 =
  level_p0 :: int32
  writers_p0 :: "bool list"
  ch_p0 :: "string list"
  done_closed_p0 :: bool
  wg_p0 :: nat
  bufPool_p0 :: "string list"
  io_p0 :: "(nat \<times> sink_call) list"

text \<open>\<^verbatim>\<open>New(filePath)\<close>: \<open>opened\<close> tells whether \<^verbatim>\<open>os.OpenFile\<close> succeeds; on failure
  New returns the error and no logger.\<close>

definition New_p0 :: "string \<Rightarrow> bool \<Rightarrow> logger_p0 option" where
  "New_p0 filePath opened =
     (let l = \<lparr>level_p0 = ucast INFO, writers_p0 = [], ch_p0 = [], done_closed_p0 = False,
               wg_p0 = 0, bufPool_p0 = [], io_p0 = []\<rparr>
      in if filePath = [] then Some (l\<lparr>writers_p0 := [True], wg_p0 := 2\<rparr>)
         else if opened then Some (l\<lparr>writers_p0 := [True, True], wg_p0 := 2\<rparr>)
         else None)"

definition SetLevel_p0 :: "go_int \<Rightarrow> logger_p0 \<Rightarrow> logger_p0" where
  "SetLevel_p0 lv l = (if lv <s DEBUG \<or> ERROR <s lv then l else l\<lparr>level_p0 := ucast lv\<rparr>)"

definition GetLevel_p0 :: "logger_p0 \<Rightarrow> go_int" where
  "GetLevel_p0 l = scast (level_p0 l)"

definition IsLevelEnabled_p0 :: "logger_p0 \<Rightarrow> go_int \<Rightarrow> bool" where
  "IsLevelEnabled_p0 l lv \<longleftrightarrow> scast (level_p0 l) \<le>s lv"

text \<open>The record of part_000 and main.go: the level name stands in brackets, and the
  array is indexed without a check of the level.\<close>

definition record_bytes_p0 :: "string \<Rightarrow> go_int \<Rightarrow> string \<Rightarrow> panic + string" where
  "record_bytes_p0 now lv msg =
     (case levelNames_at lv of
        Inl e \<Rightarrow> Inl e
      | Inr name \<Rightarrow> Inr (now @ '' ['' @ name @ ''] '' @ msg @ [CHR 0x0A]))"

definition pool_take_p0 :: "nat option \<Rightarrow> string list \<Rightarrow> string list" where
  "pool_take_p0 pick pool =
     (case pick of
        None \<Rightarrow> pool
      | Some i \<Rightarrow> if i < length pool then take i pool @ drop (Suc i) pool else pool)"

text \<open>\<^verbatim>\<open>log\<close> of part_000 (lines 122-154). \<open>now\<close> is \<^verbatim>\<open>time.Now()\<close> of this call in
  the layout \<^verbatim>\<open>2006-01-02 15:04:05\<close>. The formatted buffer goes back to the pool, its
  copy to the \<^verbatim>\<open>select\<close>: send when the channel has room, \<^verbatim>\<open>done\<close> when it is
  closed (either when both are ready, \<open>c\<close>), \<^verbatim>\<open>default\<close> when neither is ready.\<close>

definition log_p0 :: "select_pick \<Rightarrow> nat option \<Rightarrow> string \<Rightarrow> go_int \<Rightarrow> string \<Rightarrow> logger_p0 \<Rightarrow> logger_p0 result" where
  "log_p0 c pick now lv msg l =
     (if lv <s scast (level_p0 l) then Ok l
      else
        (case record_bytes_p0 now lv msg of
           Inl e \<Rightarrow> Panic e
         | Inr r \<Rightarrow>
             (let l1 = l\<lparr>bufPool_p0 := pool_take_p0 pick (bufPool_p0 l) @ [r]\<rparr>;
                  can_send = length (ch_p0 l) < 4096;
                  can_done = done_closed_p0 l
              in if can_send \<and> can_done
                 then (case c of TakeSend \<Rightarrow> Ok (l1\<lparr>ch_p0 := ch_p0 l @ [r]\<rparr>) | TakeDone \<Rightarrow> Ok l1)
                 else if can_send then Ok (l1\<lparr>ch_p0 := ch_p0 l @ [r]\<rparr>)
                 else if can_done then Ok l1
                 else Ok l1)))"

text \<open>\<open>n\<close> calls of \<^verbatim>\<open>log\<close> in a row by one goroutine, each at level INFO.\<close>

fun logs_p0 :: "nat \<Rightarrow> logger_p0 \<Rightarrow> logger_p0 result" where
  "logs_p0 0 l = Ok l"
| "logs_p0 (Suc n) l =
     (case log_p0 TakeSend None ''T0'' INFO ''queued'' l of
        Ok l' \<Rightarrow> logs_p0 n l'
      | Blocked \<Rightarrow> Blocked
      | Panic x \<Rightarrow> Panic x)"

definition write_all_p0 :: "string \<Rightarrow> logger_p0 \<Rightarrow> logger_p0" where
  "write_all_p0 line l = l\<lparr>io_p0 := io_p0 l @ writes line (writers_p0 l)\<rparr>"

definition flush_all_p0 :: "logger_p0 \<Rightarrow> logger_p0" where
  "flush_all_p0 l = l\<lparr>io_p0 := io_p0 l @ flushes (writers_p0 l)\<rparr>"

definition close_writers_p0 :: "logger_p0 \<Rightarrow> logger_p0" where
  "close_writers_p0 l = l\<lparr>io_p0 := io_p0 l @ closes (writers_p0 l)\<rparr>"

text \<open>What \<^verbatim>\<open>runWriter\<close> does once \<^verbatim>\<open>done\<close> is closed and no producer is sending:
  every queued record is written, the buffers are flushed, the goroutine returns.\<close>

definition runWriter_drain_p0 :: "logger_p0 \<Rightarrow> logger_p0" where
  "runWriter_drain_p0 l = flush_all_p0 ((fold write_all_p0 (ch_p0 l) l)\<lparr>ch_p0 := []\<rparr>)"

text \<open>\<^verbatim>\<open>Close\<close> of part_000 (lines 209-221): \<^verbatim>\<open>close(l.done)\<close>, which panics on a
  closed channel; \<^verbatim>\<open>l.wg.Wait()\<close>, during which the writer drains and both goroutines
  return; flush; close.\<close>

definition Close_p0 :: "logger_p0 \<Rightarrow> logger_p0 result" where
  "Close_p0 l =
     (if done_closed_p0 l then Panic CloseOfClosedChannel
      else Ok (close_writers_p0 (flush_all_p0
                 ((runWriter_drain_p0 (l\<lparr>done_closed_p0 := True\<rparr>))\<lparr>wg_p0 := 0\<rparr>))))"

section \<open>main.go: the synchronous revision\<close>

record logger_main =
  level_main :: go_int
  writers_main :: "bool list"
  bufPool_main :: "string list"
  io_main :: "(nat \<times> sink_call) list"

text \<open>The default logger built by \<^verbatim>\<open>init()\<close>: level INFO, standard output.\<close>

definition std_main :: logger_main where
  "std_main = \<lparr>level_main = INFO, writers_main = [True], bufPool_main = [], io_main = []\<rparr>"

text \<open>\<^verbatim>\<open>log\<close> of main.go (lines 133-156): the record is built from \<^verbatim>\<open>time.Now()\<close>
  (\<open>now\<close>, formatted), written to every buffer and flushed, under the mutex.\<close>

definition log_main :: "nat option \<Rightarrow> string \<Rightarrow> go_int \<Rightarrow> string \<Rightarrow> logger_main \<Rightarrow> logger_main result" where
  "log_main pick now lv msg l =
     (if lv <s level_main l then Ok l
      else
        (case record_bytes_p0 now lv msg of
           Inl e \<Rightarrow> Panic e
         | Inr r \<Rightarrow>
             Ok (l\<lparr>io_main := io_main l @ writes r (writers_main l) @ flushes (writers_main l),
                   bufPool_main := pool_take_p0 pick (bufPool_main l) @ [r]\<rparr>)))"

section \<open>Properties\<close>

subsection \<open>Traces\<close>

lemma sink_writes_append: "sink_writes i (xs @ ys) = sink_writes i xs @ sink_writes i ys"
  by (simp add: sink_writes_def)


lemma record_bytes_total: "\<exists>r. record_bytes stamp lv msg = Inr r"
  by (simp add: record_bytes_def levelNames_at_def)

lemma logf_format_eq: "logf_format p lv msg pick l = log_format p lv msg pick l"
  by (simp add: logf_format_def log_format_def)

subsection \<open>Removing one element of a list without repetitions\<close>

lemma distinct_remove_nth:
  assumes "distinct xs" "i < length xs"
  shows "xs ! i \<notin> set (take i xs)" "xs ! i \<notin> set (drop (Suc i) xs)"
    "set (take i xs) \<inter> set (drop (Suc i) xs) = {}"
proof -
  have "xs = take i xs @ xs ! i # drop (Suc i) xs"
    using assms(2) by (rule id_take_nth_drop)
  then have "distinct (take i xs @ xs ! i # drop (Suc i) xs)"
    using assms(1) by simp
  then show "xs ! i \<notin> set (take i xs)" "xs ! i \<notin> set (drop (Suc i) xs)"
    "set (take i xs) \<inter> set (drop (Suc i) xs) = {}"
    by auto
qed

lemma set_remove_nth_subset: "set (take i xs @ drop (Suc i) xs) \<subseteq> set xs"
  using set_take_subset [of i xs] set_drop_subset [of "Suc i" xs] by auto

lemma distinct_remove_nth': "distinct xs \<Longrightarrow> distinct (take i xs @ drop (Suc i) xs)"
  using set_take_disj_set_drop_if_distinct [of xs i "Suc i"] by simp

subsection \<open>The steps, case by case\<close>

lemma log_format_cases [consumes 1, case_names disabled reuse alloc]:
  assumes "log_format p lv msg pick l = Ok l'"
  obtains
    "pending l p = None" "\<not> IsLevelEnabled l lv" "l' = l"
  | i r where "pick = Some i" "pending l p = None" "IsLevelEnabled l lv" "i < length (bufPool l)"
      "record_bytes (ts l) lv msg = Inr r"
      "l' = l\<lparr>bufPool := take i (bufPool l) @ drop (Suc i) (bufPool l),
              heap := (heap l)(bufPool l ! i := r),
              pending := (pending l)(p \<mapsto> bufPool l ! i)\<rparr>"
  | r where "pending l p = None" "IsLevelEnabled l lv"
      "record_bytes (ts l) lv msg = Inr r"
      "l' = l\<lparr>heap := (heap l)(fresh l := r), fresh := Suc (fresh l),
              pending := (pending l)(p \<mapsto> fresh l)\<rparr>"
proof -
  obtain r where r: "record_bytes (ts l) lv msg = Inr r" using record_bytes_total by blast
  have pn: "pending l p = None" using assms by (simp add: log_format_def split: if_splits)
  show thesis
  proof (cases "IsLevelEnabled l lv")
    case False
    then have "l' = l" using assms pn by (simp add: log_format_def)
    with pn False show thesis by (rule that(1))
  next
    case en: True
    show thesis
    proof (cases "\<exists>i. pick = Some i \<and> i < length (bufPool l)")
      case True
      then obtain i where i: "pick = Some i" "i < length (bufPool l)" by blast
      have "l' = l\<lparr>bufPool := take i (bufPool l) @ drop (Suc i) (bufPool l),
              heap := (heap l)(bufPool l ! i := r),
              pending := (pending l)(p \<mapsto> bufPool l ! i)\<rparr>"
        using assms pn en i r by (auto simp add: log_format_def pool_Get_def)
      with i(1) pn en i(2) r show thesis by (rule that(2))
    next
      case False
      then have "pool_Get pick l = pool_New l"
        by (cases pick) (simp_all add: pool_Get_def)
      then have "l' = l\<lparr>heap := (heap l)(fresh l := r), fresh := Suc (fresh l),
              pending := (pending l)(p \<mapsto> fresh l)\<rparr>"
        using assms pn en r by (auto simp add: log_format_def pool_New_def)
      with pn en r show thesis by (rule that(3))
    qed
  qed
qed

lemma step_cases [consumes 1, case_names setlevel skip reuse alloc send abort recv tick wdone
    wdefault tstick tsdone sync enter finish pooldrop]:
  assumes "step e l = Ok l'"
  obtains
    lv where "e = ESetLevel lv" "l' = l\<lparr>level := ucast lv\<rparr>"
  | "l' = l"
      "(\<exists>p lv msg pick. (e = ELog p lv msg pick \<or> e = ELogf p lv msg pick) \<and>
          pending l p = None \<and> \<not> IsLevelEnabled l lv) \<or>
       (e = ECloseEnter \<and> closeOnce l = Completed)"
  | p lv msg i r where "e = ELog p lv msg (Some i) \<or> e = ELogf p lv msg (Some i)"
      "pending l p = None" "IsLevelEnabled l lv" "i < length (bufPool l)"
      "record_bytes (ts l) lv msg = Inr r"
      "l' = l\<lparr>bufPool := take i (bufPool l) @ drop (Suc i) (bufPool l),
              heap := (heap l)(bufPool l ! i := r),
              pending := (pending l)(p \<mapsto> bufPool l ! i)\<rparr>"
  | p lv msg pick r where "e = ELog p lv msg pick \<or> e = ELogf p lv msg pick"
      "pending l p = None" "IsLevelEnabled l lv"
      "record_bytes (ts l) lv msg = Inr r"
      "l' = l\<lparr>heap := (heap l)(fresh l := r), fresh := Suc (fresh l),
              pending := (pending l)(p \<mapsto> fresh l)\<rparr>"
  | p a where "e = ESelect p TakeSend" "pending l p = Some a" "length (ch l) < ch_cap l"
      "l' = l\<lparr>ch := ch l @ [a], pending := (pending l)(p := None),
              sent := sent l @ [(p, heap l a)]\<rparr>"
  | p a where "e = ESelect p TakeDone" "pending l p = Some a" "done_closed l"
      "l' = l\<lparr>bufPool := bufPool l @ [a], pending := (pending l)(p := None)\<rparr>"
  | a rest where "e = EWriterRecv" "writer_st l \<noteq> Stopped" "ch l = a # rest"
      "l' = l\<lparr>ch := rest, bufPool := bufPool l @ [a],
              io := io l @ writes (heap l a) (writers l)\<rparr>"
  | "e = EWriterTick" "writer_st l = Running" "l' = l\<lparr>io := io l @ flushes (writers l)\<rparr>"
  | "e = EWriterDone" "writer_st l = Running" "done_closed l" "l' = l\<lparr>writer_st := Draining\<rparr>"
  | "e = EWriterDefault" "writer_st l = Draining" "ch l = []" "wg l \<noteq> 0"
      "l' = l\<lparr>wg := wg l - 1, io := io l @ flushes (writers l), writer_st := Stopped\<rparr>"
  | stamp where "e = ETsTick stamp" "ts_alive l" "l' = l\<lparr>ts := stamp\<rparr>"
  | "e = ETsDone" "ts_alive l" "done_closed l" "wg l \<noteq> 0"
      "l' = l\<lparr>wg := wg l - 1, ts_alive := False\<rparr>"
  | "e = ESync" "l' = l\<lparr>io := io l @ flushes (writers l)\<rparr>"
  | "e = ECloseEnter" "closeOnce l = NotStarted" "\<not> done_closed l"
      "l' = l\<lparr>done_closed := True, closeOnce := InProgress\<rparr>"
  | "e = ECloseFinish" "closeOnce l = InProgress" "wg l = 0"
      "l' = l\<lparr>closeOnce := Completed, io := io l @ flushes (writers l) @ closes (writers l)\<rparr>"
  | i where "e = EPoolDrop i" "l' = l\<lparr>bufPool := take i (bufPool l) @ drop (Suc i) (bufPool l)\<rparr>"
proof (cases e)
  case (ESetLevel lv)
  then show ?thesis using assms that(1) by (simp add: SetLevel_def)
next
  case (ELog p lv msg pick)
  with assms have "log_format p lv msg pick l = Ok l'" by simp
  then show ?thesis
  proof (cases rule: log_format_cases)
    case disabled
    with ELog show ?thesis by (intro that(2)) auto
  next
    case (reuse i r)
    with ELog show ?thesis by (intro that(3) [of p lv msg i r]) auto
  next
    case (alloc r)
    with ELog show ?thesis by (intro that(4) [of p lv msg pick r]) auto
  qed
next
  case (ELogf p lv msg pick)
  with assms have "log_format p lv msg pick l = Ok l'" by (simp add: logf_format_eq)
  then show ?thesis
  proof (cases rule: log_format_cases)
    case disabled
    with ELogf show ?thesis by (intro that(2)) auto
  next
    case (reuse i r)
    with ELogf show ?thesis by (intro that(3) [of p lv msg i r]) auto
  next
    case (alloc r)
    with ELogf show ?thesis by (intro that(4) [of p lv msg pick r]) auto
  qed
next
  case (ESelect p c)
  with assms show ?thesis using that(5) [of p] that(6) [of p]
    by (auto simp: log_select_def pool_Put_def split: if_splits option.splits select_pick.splits)
next
  case EWriterRecv
  with assms show ?thesis using that(7)
    by (auto simp: writerLoop_recv_def pool_Put_def write_all_def split: if_splits list.splits)
next
  case EWriterTick
  with assms show ?thesis using that(8)
    by (auto simp: writerLoop_tick_def flushAll_def split: if_splits)
next
  case EWriterDone
  with assms show ?thesis using that(9)
    by (auto simp: writerLoop_done_def split: if_splits)
next
  case EWriterDefault
  with assms show ?thesis using that(10)
    by (auto simp: writerLoop_default_def wg_Done_def flushAll_def split: if_splits)
next
  case (ETsTick stamp)
  with assms show ?thesis using that(11)
    by (auto simp: timestampLoop_tick_def split: if_splits)
next
  case ETsDone
  with assms show ?thesis using that(12)
    by (auto simp: timestampLoop_done_def wg_Done_def split: if_splits)
next
  case ESync
  with assms show ?thesis using that(13)
    by (auto simp: Sync_def flushAll_def)
next
  case ECloseEnter
  with assms show ?thesis using that(2) that(14)
    by (auto simp: Close_enter_def split: if_splits once.splits)
next
  case ECloseFinish
  with assms show ?thesis using that(15)
    by (auto simp: Close_finish_def flushAll_def close_writers_def split: if_splits)
next
  case (EPoolDrop i)
  with assms show ?thesis using that(16)
    by (auto simp: pool_drop_def)
qed

subsection \<open>Control: WaitGroup, Once, the goroutines\<close>

lemma step_writers:
  assumes "step e l = Ok l'"
  shows "writers l' = writers l"
  using assms by (cases rule: step_cases) simp_all

lemma step_ch_cap:
  assumes "step e l = Ok l'"
  shows "ch_cap l' = ch_cap l"
  using assms by (cases rule: step_cases) simp_all

lemma step_inv_ctl:
  assumes "inv_ctl l" "step e l = Ok l'"
  shows "inv_ctl l'"
  using assms(2,1) by (cases rule: step_cases) ((clarsimp simp: inv_ctl_def; blast?)+)


subsection \<open>Ownership of the byte slices\<close>

lemma inv_own_alloc:
  assumes "inv_own l" "pending l p = None" "ch l' = ch l" "bufPool l' = bufPool l"
    "fresh l' = Suc (fresh l)" "pending l' = (pending l)(p \<mapsto> fresh l)"
  shows "inv_own l'"
  using assms unfolding inv_own_def
  by (auto simp: less_Suc_eq)

lemma inv_own_reuse:
  assumes "inv_own l" "pending l p = None" "i < length (bufPool l)" "ch l' = ch l"
    "bufPool l' = take i (bufPool l) @ drop (Suc i) (bufPool l)"
    "fresh l' = fresh l" "pending l' = (pending l)(p \<mapsto> bufPool l ! i)"
  shows "inv_own l'"
proof -
  let ?a = "bufPool l ! i"
  have d: "distinct (bufPool l)" and a_in: "?a \<in> set (bufPool l)"
    using assms(1,3) by (auto simp: inv_own_def)
  have sub: "set (bufPool l') \<subseteq> set (bufPool l)"
    using assms(5) set_remove_nth_subset [of i "bufPool l"] by simp
  have nin: "?a \<notin> set (bufPool l')"
    using distinct_remove_nth [OF d assms(3)] assms(5) by simp
  have dl': "distinct (bufPool l')"
    using distinct_remove_nth' [OF d] assms(5) by simp
  have np: "\<And>q. pending l q \<noteq> Some ?a"
    using assms(1) a_in by (auto simp: inv_own_def)
  show ?thesis
    unfolding inv_own_def
    using assms(1,2,4,6,7) sub nin dl' np a_in unfolding inv_own_def
    by (auto)
qed

lemma inv_own_send:
  assumes "inv_own l" "pending l p = Some a" "ch l' = ch l @ [a]" "bufPool l' = bufPool l"
    "fresh l' = fresh l" "pending l' = (pending l)(p := None)"
  shows "inv_own l'"
  using assms unfolding inv_own_def by (auto)

lemma inv_own_abort:
  assumes "inv_own l" "pending l p = Some a" "ch l' = ch l" "bufPool l' = bufPool l @ [a]"
    "fresh l' = fresh l" "pending l' = (pending l)(p := None)"
  shows "inv_own l'"
  using assms unfolding inv_own_def by (auto)

lemma inv_own_recv:
  assumes "inv_own l" "ch l = a # rest" "ch l' = rest" "bufPool l' = bufPool l @ [a]"
    "fresh l' = fresh l" "pending l' = pending l"
  shows "inv_own l'"
  using assms unfolding inv_own_def by (auto)

lemma inv_own_drop:
  assumes "inv_own l" "ch l' = ch l" "bufPool l' = take i (bufPool l) @ drop (Suc i) (bufPool l)"
    "fresh l' = fresh l" "pending l' = pending l"
  shows "inv_own l'"
proof -
  have d: "distinct (bufPool l)" using assms(1) by (simp add: inv_own_def)
  have sub: "set (bufPool l') \<subseteq> set (bufPool l)"
    using assms(3) set_remove_nth_subset [of i "bufPool l"] by simp
  have dl': "distinct (bufPool l')"
    using distinct_remove_nth' [OF d] assms(3) by simp
  show ?thesis
    unfolding inv_own_def
    using assms(1,2,4,5) sub dl' unfolding inv_own_def
    by (auto)
qed

lemma step_inv_own:
  assumes "inv_own l" "step e l = Ok l'"
  shows "inv_own l'"
  using assms(2)
proof (cases rule: step_cases)
  case (reuse p lv msg i r)
  show ?thesis
    by (rule inv_own_reuse [OF assms(1) reuse(2) reuse(4)]) (simp_all add: reuse(6))
next
  case (alloc p lv msg pick r)
  show ?thesis
    by (rule inv_own_alloc [OF assms(1) alloc(2)]) (simp_all add: alloc(5))
next
  case (send p a)
  show ?thesis
    by (rule inv_own_send [OF assms(1) send(2)]) (simp_all add: send(4))
next
  case (abort p a)
  show ?thesis
    by (rule inv_own_abort [OF assms(1) abort(2)]) (simp_all add: abort(4))
next
  case (recv a rest)
  show ?thesis
    by (rule inv_own_recv [OF assms(1) recv(3)]) (simp_all add: recv(4))
next
  case (pooldrop i)
  show ?thesis
    by (rule inv_own_drop [OF assms(1), of _ i]) (simp_all add: pooldrop(2))
qed (use assms(1) in \<open>simp_all add: inv_own_def\<close>)

subsection \<open>What the sinks receive\<close>

lemma sink_writes_writes:
  "sink_writes i (writes b ws) = (if i < length ws then [b] else [])"
proof -
  have "sink_writes i (map (\<lambda>j. (j, SinkWrite b)) [0..<n]) = (if i < n then [b] else [])" for n
    by (induction n) (auto simp: sink_writes_def)
  then show ?thesis by (simp add: writes_def)
qed

lemma sink_writes_flushes [simp]: "sink_writes i (flushes ws) = []"
  by (simp add: sink_writes_def flushes_def)

lemma sink_writes_closes [simp]: "sink_writes i (closes ws) = []"
  by (simp add: sink_writes_def closes_def)

lemma map_heap_upd: "a \<notin> set xs \<Longrightarrow> map (h(a := v)) xs = map h xs"
  by (induction xs) auto

lemma step_inv_fifo:
  assumes "inv_fifo l" "inv_own l" "step e l = Ok l'"
  shows "inv_fifo l'"
  using assms(3)
proof (cases rule: step_cases)
  case (reuse p lv msg i r)
  have "bufPool l ! i \<in> set (bufPool l)" using reuse(4) by simp
  then have "bufPool l ! i \<notin> set (ch l)" using assms(2) by (auto simp: inv_own_def)
  then show ?thesis using assms(1) by (simp add: inv_fifo_def reuse(6) map_heap_upd)
next
  case (alloc p lv msg pick r)
  have "fresh l \<notin> set (ch l)" using assms(2) by (auto simp: inv_own_def)
  then show ?thesis using assms(1) by (simp add: inv_fifo_def alloc(5) map_heap_upd)
next
  case (recv a rest)
  then show ?thesis using assms(1)
    by (simp add: inv_fifo_def sink_writes_append sink_writes_writes)
qed (use assms(1) in \<open>simp_all add: inv_fifo_def sink_writes_append\<close>)

subsection \<open>Close calls on the writers\<close>

lemma count_close_writes [simp]: "count_list (writes b ws) (i, SinkClose) = 0"
  by (auto simp: writes_def count_list_0_iff)

lemma count_close_flushes [simp]: "count_list (flushes ws) (i, SinkClose) = 0"
  by (auto simp: flushes_def count_list_0_iff)

lemma count_close_closes:
  "count_list (closes ws) (i, SinkClose) = (if i < length ws \<and> ws ! i then 1 else 0)"
proof -
  have "count_list (map (\<lambda>j. (j, SinkClose)) (filter P [0..<n])) (i, SinkClose)
        = (if i < n \<and> P i then 1 else 0)" for n and P :: "nat \<Rightarrow> bool"
    by (induction n) auto
  then show ?thesis by (simp add: closes_def)
qed

lemma step_inv_close:
  assumes "inv_close l" "step e l = Ok l'"
  shows "inv_close l'"
  using assms(2)
proof (cases rule: step_cases)
  case finish
  then show ?thesis using assms(1) by (simp add: inv_close_def count_close_closes)
qed (use assms(1) in \<open>simp_all add: inv_close_def\<close>)

subsection \<open>The invariant holds in every execution\<close>

lemma step_invariant:
  assumes "invariant l" "step e l = Ok l'"
  shows "invariant l'"
  using assms step_inv_ctl step_inv_own step_inv_fifo step_inv_close
  unfolding invariant_def by blast

lemma run_invariant: "invariant l \<Longrightarrow> run es l = Ok l' \<Longrightarrow> invariant l'"
proof (induction es arbitrary: l)
  case Nil
  then show ?case by simp
next
  case (Cons e es)
  then obtain l1 where "step e l = Ok l1" "run es l1 = Ok l'"
    by (auto split: result.splits)
  with Cons show ?case using step_invariant by blast
qed


subsection \<open>New\<close>

lemma apply_opt_pristine: "pristine l \<Longrightarrow> pristine (apply_opt x l)"
  by (cases x) (auto simp: pristine_def word_sless_alt split: option.splits)

lemma fold_apply_opt_pristine: "pristine l \<Longrightarrow> pristine (fold apply_opt opts l)"
  by (induction opts arbitrary: l) (simp_all add: apply_opt_pristine)

lemma New_pristine: "pristine (New now opts)" "wg (New now opts) = 2" "writers (New now opts) \<noteq> []"
  "ts (New now opts) = now"
proof -
  let ?l0 = "\<lparr>level = ucast INFO, writers = [], ch = [], ch_cap = 1024, bufPool = [],
                done_closed = False, wg = 0, closeOnce = NotStarted, ts = [],
                heap = (\<lambda>_. []), fresh = 0, io = [], pending = (\<lambda>_. None),
                writer_st = Running, ts_alive = True, sent = []\<rparr>"
  have "pristine ?l0" by (simp add: pristine_def)
  then have p: "pristine (fold apply_opt opts ?l0)" by (rule fold_apply_opt_pristine)
  then show "pristine (New now opts)" by (simp add: New_def Let_def pristine_def)
  show "wg (New now opts) = 2" by (simp add: New_def Let_def)
  show "writers (New now opts) \<noteq> []" by (simp add: New_def Let_def)
  show "ts (New now opts) = now" by (simp add: New_def Let_def)
qed

lemma New_invariant: "invariant (New now opts)"
  using New_pristine [of now opts]
  by (simp add: invariant_def inv_ctl_def inv_own_def inv_fifo_def inv_close_def pristine_def sink_writes_def)

lemma reachable_invariant: "run es (New now opts) = Ok l \<Longrightarrow> invariant l"
  using run_invariant [OF New_invariant] .


lemma run_writers: "run es l = Ok l' \<Longrightarrow> writers l' = writers l"
proof (induction es arbitrary: l)
  case Nil
  then show ?case by simp
next
  case (Cons e es)
  then obtain l1 where "step e l = Ok l1" "run es l1 = Ok l'"
    by (auto split: result.splits)
  with Cons show ?case using step_writers by metis
qed


subsection \<open>Levels and casts\<close>

lemma in_range_iff:
  "(0 \<le>s lv \<and> sint lv < int (length levelNames)) \<longleftrightarrow> (DEBUG \<le>s lv \<and> lv \<le>s ERROR)"
  by (auto simp: levelNames_def DEBUG_def ERROR_def word_sle_eq)

lemma record_bytes_unknown:
  "\<not> (DEBUG \<le>s lv \<and> lv \<le>s ERROR) \<Longrightarrow>
   record_bytes stamp lv msg = Inr (stamp @ '' UNK '' @ msg @ [CHR 0x0A])"
  by (auto simp: record_bytes_def in_range_iff)

lemma record_bytes_known:
  "DEBUG \<le>s lv \<Longrightarrow> lv \<le>s ERROR \<Longrightarrow>
   record_bytes stamp lv msg =
     Inr (stamp @ '' '' @ levelNames ! nat (sint lv) @ '' '' @ msg @ [CHR 0x0A])"
  by (auto simp: record_bytes_def levelNames_at_def in_range_iff)

lemma sint_int32_of_int:
  fixes lv :: go_int
  assumes "- (2 ^ 31) \<le> sint lv" "sint lv < 2 ^ 31"
  shows "sint (ucast lv :: int32) = sint lv"
proof -
  have "sint (ucast lv :: int32) = signed_take_bit 31 (uint lv)"
    by (simp add: signed_ucast_eq)
  also have "\<dots> = signed_take_bit 31 (sint lv)"
    by (simp add: sint_uint)
  also have "\<dots> = sint lv"
    using assms by (simp add: signed_take_bit_int_eq_self)
  finally show ?thesis .
qed

lemma sint_int_of_int32: "sint (scast (x :: int32) :: go_int) = sint x"
  by (rule sint_up_scast) (simp add: is_up)

lemma scast_ucast_int32:
  fixes lv :: go_int
  assumes "- (2 ^ 31) \<le> sint lv" "sint lv < 2 ^ 31"
  shows "(scast (ucast lv :: int32) :: go_int) = lv"
  by (rule signed_word_eqI [where 'a = int]) (simp add: sint_int_of_int32 sint_int32_of_int [OF assms])


section \<open>The claims\<close>

subsection \<open>C10: levels outside DEBUG..ERROR\<close>

text \<open>
  C10. In speedlog.go no call of \<^verbatim>\<open>log\<close> or \<^verbatim>\<open>logf\<close> panics, whatever the level: the
  array of level names is indexed only after the range check. A call whose level lies
  outside DEBUG..ERROR and passes the threshold builds the record
  \<open>timestamp, space, UNK, space, message, newline\<close> and stands at the \<^verbatim>\<open>select\<close> with it.
\<close>

theorem log_out_of_range_level:
  "(\<forall>x. log_format p lv msg pick l \<noteq> Panic x) \<and>
   (\<forall>x. logf_format p lv msg pick l \<noteq> Panic x) \<and>
   (\<forall>c x. log_select p c l \<noteq> Panic x) \<and>
   (\<not> (DEBUG \<le>s lv \<and> lv \<le>s ERROR) \<and> IsLevelEnabled l lv \<and> pending l p = None \<longrightarrow>
      (\<exists>a l'. log_format p lv msg pick l = Ok l' \<and> pending l' p = Some a \<and>
               heap l' a = ts l @ '' UNK '' @ msg @ [CHR 0x0A] \<and>
               io l' = io l \<and> ch l' = ch l))"
proof -
  obtain r where r: "record_bytes (ts l) lv msg = Inr r"
    using record_bytes_total by blast
  have get: "ts (snd (pool_Get pick l)) = ts l"
    by (simp add: pool_Get_def pool_New_def split: option.splits)
  have nopanic: "log_format p lv msg pick l \<noteq> Panic x" for x
  proof (cases "pool_Get pick l")
    case (Pair a l1)
    then have "ts l1 = ts l" using get by simp
    with Pair r show ?thesis by (simp add: log_format_def)
  qed
  have nopanic_f: "logf_format p lv msg pick l \<noteq> Panic x" for x
    using nopanic by (simp add: logf_format_eq)
  have nopanic_s: "log_select p c l \<noteq> Panic x" for c x
    by (simp add: log_select_def pool_Put_def split: option.splits select_pick.splits)
  have unk: "\<exists>a l'. log_format p lv msg pick l = Ok l' \<and> pending l' p = Some a \<and>
               heap l' a = ts l @ '' UNK '' @ msg @ [CHR 0x0A] \<and> io l' = io l \<and> ch l' = ch l"
    if out: "\<not> (DEBUG \<le>s lv \<and> lv \<le>s ERROR)" and en: "IsLevelEnabled l lv"
      and pn: "pending l p = None"
  proof -
    have rb: "record_bytes (ts l) lv msg = Inr (ts l @ '' UNK '' @ msg @ [CHR 0x0A])"
      using out by (rule record_bytes_unknown)
    show ?thesis
    proof (cases "\<exists>i. pick = Some i \<and> i < length (bufPool l)")
      case True
      then obtain i where "pick = Some i" "i < length (bufPool l)" by blast
      then show ?thesis using rb en pn
        by (simp add: log_format_def pool_Get_def)
    next
      case False
      then have "pool_Get pick l = pool_New l"
        by (cases pick) (simp_all add: pool_Get_def)
      then show ?thesis using rb en pn
        by (simp add: log_format_def pool_New_def)
    qed
  qed
  show ?thesis using nopanic nopanic_f nopanic_s unk by blast
qed

theorem log_out_of_range_level_witness:
  "(\<exists>a l'. log_format 0 7 ''boom'' None (New ''T0'' []) = Ok l' \<and> pending l' 0 = Some a \<and>
      heap l' a = ''T0 UNK boom'' @ [CHR 0x0A]) \<and>
   (\<exists>a l'. log_format 0 (- 1) ''neg'' None (New ''T0'' [WithLevel (- 5)]) = Ok l' \<and>
      pending l' 0 = Some a \<and> heap l' a = ''T0 UNK neg'' @ [CHR 0x0A])"
proof -
  have a: "\<not> (DEBUG \<le>s (7::go_int) \<and> 7 \<le>s ERROR) \<and> IsLevelEnabled (New ''T0'' []) 7 \<and>
           pending (New ''T0'' []) 0 = None"
    by (simp add: DEBUG_def ERROR_def word_sle_eq IsLevelEnabled_def New_def INFO_def)
  have b: "\<not> (DEBUG \<le>s (- 1::go_int) \<and> - 1 \<le>s ERROR) \<and>
           IsLevelEnabled (New ''T0'' [WithLevel (- 5)]) (- 1) \<and>
           pending (New ''T0'' [WithLevel (- 5)]) 0 = None"
    by (simp add: DEBUG_def ERROR_def word_sle_eq IsLevelEnabled_def New_def INFO_def)
  have ta: "ts (New ''T0'' []) = ''T0''" and tb: "ts (New ''T0'' [WithLevel (- 5)]) = ''T0''"
    by (simp_all add: New_def)
  show ?thesis
    using log_out_of_range_level [of 0 7 "''boom''" None "New ''T0'' []"]
      log_out_of_range_level [of 0 "- 1" "''neg''" None "New ''T0'' [WithLevel (- 5)]"]
      a b ta tb
    by (simp; blast)
qed


lemma record_bytes_tag:
  "record_bytes stamp lv msg = Inr (stamp @ '' '' @ tag_of lv @ '' '' @ msg @ [CHR 0x0A])"
  by (cases "DEBUG \<le>s lv \<and> lv \<le>s ERROR")
    (auto simp: tag_of_def record_bytes_known record_bytes_unknown)

lemma tag_of_names:
  "tag_of DEBUG = ''DEBUG''" "tag_of INFO = ''INFO''" "tag_of WARN = ''WARN''"
  "tag_of ERROR = ''ERROR''"
  by (simp_all add: tag_of_def DEBUG_def INFO_def WARN_def ERROR_def levelNames_def word_sle_eq)

subsection \<open>C9: SetLevel and GetLevel\<close>

text \<open>
  C9, as stated, fails: part_000's \<^verbatim>\<open>SetLevel\<close> returns without storing when the level is
  outside DEBUG..ERROR, and speedlog.go stores \<^verbatim>\<open>int32(level)\<close>, the low 32 bits.
\<close>

theorem SetLevel_GetLevel_counterexample:
  "(\<exists>l0. New_p0 [] False = Some l0 \<and> GetLevel_p0 (SetLevel_p0 7 l0) = INFO \<and>
         GetLevel_p0 (SetLevel_p0 7 l0) \<noteq> 7) \<and>
   GetLevel (SetLevel 4294967296 (New ''T0'' [])) = 0 \<and>
   GetLevel (SetLevel 4294967296 (New ''T0'' [])) \<noteq> 4294967296"
  by (simp add: New_p0_def GetLevel_p0_def SetLevel_p0_def GetLevel_def SetLevel_def
      DEBUG_def INFO_def ERROR_def word_sless_alt)

text \<open>
  C9, amended. In speedlog.go, for every level that fits 32 bits, \<^verbatim>\<open>GetLevel\<close> after
  \<^verbatim>\<open>SetLevel(L)\<close> returns \<open>L\<close>, and a level check made after the store compares with
  \<open>L\<close>; in general it returns the sign-extended low 32 bits of \<open>L\<close>. In part_000 the same
  holds for every \<open>L\<close> of DEBUG..ERROR, and any other \<open>L\<close> leaves the logger unchanged.
\<close>

theorem SetLevel_GetLevel:
  "(- (2 ^ 31) \<le> sint lv \<and> sint lv < 2 ^ 31 \<longrightarrow>
      GetLevel (SetLevel lv l) = lv \<and> (\<forall>x. IsLevelEnabled (SetLevel lv l) x \<longleftrightarrow> lv \<le>s x)) \<and>
   GetLevel (SetLevel lv l) = scast (ucast lv :: int32) \<and>
   (DEBUG \<le>s lv \<and> lv \<le>s ERROR \<longrightarrow>
      GetLevel_p0 (SetLevel_p0 lv l0) = lv \<and>
      (\<forall>x. IsLevelEnabled_p0 (SetLevel_p0 lv l0) x \<longleftrightarrow> lv \<le>s x)) \<and>
   (\<not> (DEBUG \<le>s lv \<and> lv \<le>s ERROR) \<longrightarrow> SetLevel_p0 lv l0 = l0)"
proof -
  have fits: "GetLevel (SetLevel lv l) = lv \<and> (\<forall>x. IsLevelEnabled (SetLevel lv l) x \<longleftrightarrow> lv \<le>s x)"
    if "- (2 ^ 31) \<le> sint lv" "sint lv < 2 ^ 31"
    using scast_ucast_int32 [OF that]
    by (simp add: GetLevel_def SetLevel_def IsLevelEnabled_def)
  have always: "GetLevel (SetLevel lv l) = scast (ucast lv :: int32)"
    by (simp add: GetLevel_def SetLevel_def)
  have p0_in: "GetLevel_p0 (SetLevel_p0 lv l0) = lv \<and>
      (\<forall>x. IsLevelEnabled_p0 (SetLevel_p0 lv l0) x \<longleftrightarrow> lv \<le>s x)"
    if r: "DEBUG \<le>s lv" "lv \<le>s ERROR"
  proof -
    have "- (2 ^ 31) \<le> sint lv" "sint lv < 2 ^ 31"
      using r by (simp_all add: DEBUG_def ERROR_def word_sle_eq)
    then have "(scast (ucast lv :: int32) :: go_int) = lv"
      by (rule scast_ucast_int32)
    moreover have "\<not> (lv <s DEBUG \<or> ERROR <s lv)"
      using r by (simp add: word_sle_eq word_sless_alt)
    ultimately show ?thesis
      by (simp add: GetLevel_p0_def SetLevel_p0_def IsLevelEnabled_p0_def)
  qed
  have p0_out: "SetLevel_p0 lv l0 = l0" if "\<not> (DEBUG \<le>s lv \<and> lv \<le>s ERROR)"
  proof -
    have "lv <s DEBUG \<or> ERROR <s lv"
      using that by (auto simp: word_sle_eq word_sless_alt)
    then show ?thesis by (simp add: SetLevel_p0_def)
  qed
  show ?thesis using fits always p0_in p0_out by blast
qed

theorem SetLevel_GetLevel_witness:
  "GetLevel (SetLevel WARN (New ''T0'' [])) = WARN \<and>
   IsLevelEnabled (SetLevel WARN (New ''T0'' [])) ERROR \<and>
   \<not> IsLevelEnabled (SetLevel WARN (New ''T0'' [])) INFO \<and>
   (\<exists>l0. New_p0 [] False = Some l0 \<and> GetLevel_p0 (SetLevel_p0 WARN l0) = WARN \<and>
      SetLevel_p0 7 l0 = l0 \<and> SetLevel_p0 (- 1) l0 = l0)"
proof -
  obtain l0 where l0: "New_p0 [] False = Some l0" by (simp add: New_p0_def)
  have h: "- (2 ^ 31) \<le> sint WARN \<and> sint WARN < 2 ^ 31" "DEBUG \<le>s WARN \<and> WARN \<le>s ERROR"
    "\<not> (DEBUG \<le>s (7::go_int) \<and> 7 \<le>s ERROR)" "\<not> (DEBUG \<le>s (- 1::go_int) \<and> - 1 \<le>s ERROR)"
    "WARN \<le>s ERROR" "\<not> WARN \<le>s INFO"
    by (simp_all add: DEBUG_def INFO_def WARN_def ERROR_def word_sle_eq)
  show ?thesis
    using SetLevel_GetLevel [of WARN "New ''T0'' []" l0] SetLevel_GetLevel [of 7 "New ''T0'' []" l0]
      SetLevel_GetLevel [of "- 1" "New ''T0'' []" l0] h l0
    by (simp)
qed


subsection \<open>The writer empties the queue\<close>




lemma log_format_enabled:
  assumes "pending l p = None" "IsLevelEnabled l lv"
  shows "\<exists>a l1. log_format p lv msg pick l = Ok l1 \<and> pending l1 p = Some a \<and>
     heap l1 = (heap l)(a := ts l @ '' '' @ tag_of lv @ '' '' @ msg @ [CHR 0x0A]) \<and>
     (a \<in> set (bufPool l) \<or> a = fresh l) \<and>
     ch l1 = ch l \<and> io l1 = io l \<and> writers l1 = writers l \<and> ch_cap l1 = ch_cap l \<and>
     writer_st l1 = writer_st l \<and> done_closed l1 = done_closed l \<and> sent l1 = sent l"
proof (cases "\<exists>i. pick = Some i \<and> i < length (bufPool l)")
  case True
  then obtain i where "pick = Some i" "i < length (bufPool l)" by blast
  then show ?thesis using assms
    by (simp add: log_format_def pool_Get_def record_bytes_tag)
next
  case False
  then have "pool_Get pick l = pool_New l"
    by (cases pick) (simp_all add: pool_Get_def)
  then show ?thesis using assms
    by (simp add: log_format_def pool_New_def record_bytes_tag)
qed


subsection \<open>C3: the level check\<close>




lemma ends_inD: "ends_in r P \<Longrightarrow> \<exists>l. r = Ok l \<and> P l"
  by (cases r) (simp_all add: ends_in_def)

subsection \<open>C5: first in, first out\<close>




subsection \<open>C1: no record is lost while running\<close>

lemma levelNames_at_known:
  "levelNames_at DEBUG = Inr ''DEBUG''" "levelNames_at INFO = Inr ''INFO''"
  "levelNames_at WARN = Inr ''WARN''" "levelNames_at ERROR = Inr ''ERROR''"
  by (simp_all add: levelNames_at_def levelNames_def DEBUG_def INFO_def WARN_def ERROR_def
      word_sle_eq)

lemma log_p0_room:
  assumes "\<not> done_closed_p0 l" "\<not> lv <s scast (level_p0 l)" "length (ch_p0 l) < 4096"
    "levelNames_at lv = Inr name"
  shows "log_p0 c pick now lv msg l =
     Ok (l\<lparr>bufPool_p0 := pool_take_p0 pick (bufPool_p0 l) @ [now @ '' ['' @ name @ ''] '' @ msg @ [CHR 0x0A]],
           ch_p0 := ch_p0 l @ [now @ '' ['' @ name @ ''] '' @ msg @ [CHR 0x0A]]\<rparr>)"
  using assms by (simp add: log_p0_def record_bytes_p0_def Let_def)

lemma log_p0_full:
  assumes "\<not> done_closed_p0 l" "\<not> lv <s scast (level_p0 l)" "\<not> length (ch_p0 l) < 4096"
    "levelNames_at lv = Inr name"
  shows "log_p0 c pick now lv msg l =
     Ok (l\<lparr>bufPool_p0 := pool_take_p0 pick (bufPool_p0 l) @ [now @ '' ['' @ name @ ''] '' @ msg @ [CHR 0x0A]]\<rparr>)"
  using assms by (simp add: log_p0_def record_bytes_p0_def Let_def)

lemma logs_p0_fill:
  "\<not> done_closed_p0 l \<Longrightarrow> \<not> INFO <s scast (level_p0 l) \<Longrightarrow> length (ch_p0 l) + n \<le> 4096 \<Longrightarrow>
   \<exists>l'. logs_p0 n l = Ok l' \<and> length (ch_p0 l') = length (ch_p0 l) + n \<and>
        \<not> done_closed_p0 l' \<and> level_p0 l' = level_p0 l \<and> io_p0 l' = io_p0 l"
proof (induction n arbitrary: l)
  case 0
  then show ?case by simp
next
  case (Suc n)
  let ?r = "''T0'' @ '' ['' @ ''INFO'' @ ''] '' @ ''queued'' @ [CHR 0x0A]"
  let ?l1 = "l\<lparr>bufPool_p0 := pool_take_p0 None (bufPool_p0 l) @ [?r], ch_p0 := ch_p0 l @ [?r]\<rparr>"
  have room: "length (ch_p0 l) < 4096" using Suc.prems(3) by simp
  have s: "log_p0 TakeSend None ''T0'' INFO ''queued'' l = Ok ?l1"
    by (rule log_p0_room [OF Suc.prems(1,2) room levelNames_at_known(2)])
  have "\<exists>l'. logs_p0 n ?l1 = Ok l' \<and> length (ch_p0 l') = length (ch_p0 ?l1) + n \<and>
        \<not> done_closed_p0 l' \<and> level_p0 l' = level_p0 ?l1 \<and> io_p0 l' = io_p0 ?l1"
    using Suc.prems by (intro Suc.IH) simp_all
  then show ?case using s by simp
qed

text \<open>
  C1, as stated, fails: part_000 fills its queue of 4096 records with 4096 calls and
  then, still running, discards the next record that passes the level check: the
  \<^verbatim>\<open>select\<close> takes its \<^verbatim>\<open>default\<close> branch, the queue and the sinks stay as
  they were.
\<close>

theorem log_p0_drops_on_full_queue:
  "\<exists>l l1 l2. New_p0 [] False = Some l \<and> logs_p0 4096 l = Ok l1 \<and>
      length (ch_p0 l1) = 4096 \<and> \<not> done_closed_p0 l1 \<and> IsLevelEnabled_p0 l1 ERROR \<and>
      log_p0 TakeSend None ''T1'' ERROR ''lost'' l1 = Ok l2 \<and>
      ch_p0 l2 = ch_p0 l1 \<and> io_p0 l2 = io_p0 l1 \<and> io_p0 l2 = []"
proof -
  obtain l where l: "New_p0 [] False = Some l" "\<not> done_closed_p0 l" "level_p0 l = ucast INFO"
    "ch_p0 l = []" "io_p0 l = []"
    by (simp add: New_p0_def)
  have lv: "\<not> INFO <s scast (level_p0 l)" "\<not> ERROR <s scast (level_p0 l)"
    by (simp_all add: l(3) INFO_def ERROR_def word_sless_alt)
  obtain l1 where l1: "logs_p0 4096 l = Ok l1" "length (ch_p0 l1) = 4096"
    "\<not> done_closed_p0 l1" "level_p0 l1 = level_p0 l" "io_p0 l1 = io_p0 l"
    using logs_p0_fill [OF l(2) lv(1), of 4096] l(4) by auto
  have en: "IsLevelEnabled_p0 l1 ERROR"
    by (simp add: IsLevelEnabled_p0_def l1(4) l(3) INFO_def ERROR_def word_sle_eq)
  have nl: "\<not> ERROR <s scast (level_p0 l1)" using lv(2) l1(4) by simp
  have full: "\<not> length (ch_p0 l1) < 4096" using l1(2) by simp
  note drop = log_p0_full [OF l1(3) nl full levelNames_at_known(4), of TakeSend None "''T1''" "''lost''"]
  show ?thesis
    using l(1) l1 en drop l(5) by (auto)
qed

text \<open>
  C1, amended to the blocking policy. In every state that an execution of speedlog.go
  reaches before \<^verbatim>\<open>done\<close> is closed: a call of \<^verbatim>\<open>log\<close> that passes the level check
  reaches the \<^verbatim>\<open>select\<close> with its record; for a producer \<open>p\<close> that stands at the
  \<^verbatim>\<open>select\<close> with the record at \<open>a\<close>, the send goes through and appends the record to the
  queue when there is room, nothing can be taken when the queue is full (the producer
  waits), the \<^verbatim>\<open>done\<close> branch cannot be taken, and no step of any goroutine changes the
  bytes of the record or takes it from \<open>p\<close> other than \<open>p\<close>'s own send. (part_000 follows the
  dropping policy: a full queue discards the record.)
\<close>

theorem enqueue_blocks_never_drops:
  assumes reach: "run es (New now opts) = Ok l" and nd: "\<not> done_closed l"
  shows "(\<forall>q lv msg pick. pending l q = None \<and> IsLevelEnabled l lv \<longrightarrow>
            (\<exists>b l'. step (ELog q lv msg pick) l = Ok l' \<and> pending l' q = Some b)) \<and>
         (\<forall>p a. pending l p = Some a \<longrightarrow>
            (length (ch l) < ch_cap l \<longrightarrow>
               (\<exists>l'. step (ESelect p TakeSend) l = Ok l' \<and> ch l' = ch l @ [a] \<and>
                     heap l' a = heap l a)) \<and>
            (\<not> length (ch l) < ch_cap l \<longrightarrow> step (ESelect p TakeSend) l = Blocked) \<and>
            step (ESelect p TakeDone) l = Blocked \<and>
            (\<forall>e l'. step e l = Ok l' \<longrightarrow>
               heap l' a = heap l a \<and>
               (pending l' p = Some a \<or> e = ESelect p TakeSend \<and> ch l' = ch l @ [a])))"
proof -
  have inv: "inv_own l" using reach reachable_invariant by (auto simp: invariant_def)
  have call: "\<exists>b l'. step (ELog q lv msg pick) l = Ok l' \<and> pending l' q = Some b"
    if "pending l q = None" "IsLevelEnabled l lv" for q lv msg pick
    using log_format_enabled [OF that, of msg pick] by auto
  have sel: "(length (ch l) < ch_cap l \<longrightarrow>
               (\<exists>l'. step (ESelect p TakeSend) l = Ok l' \<and> ch l' = ch l @ [a] \<and>
                     heap l' a = heap l a)) \<and>
            (\<not> length (ch l) < ch_cap l \<longrightarrow> step (ESelect p TakeSend) l = Blocked) \<and>
            step (ESelect p TakeDone) l = Blocked"
    if "pending l p = Some a" for p a
    using that nd by (simp add: log_select_def)
  have keep: "heap l' a = heap l a \<and>
               (pending l' p = Some a \<or> e = ESelect p TakeSend \<and> ch l' = ch l @ [a])"
    if pend: "pending l p = Some a" and st: "step e l = Ok l'" for p a e l'
  proof -
    have own: "a < fresh l" "a \<notin> set (bufPool l)"
      using inv pend by (auto simp: inv_own_def)
    from st show ?thesis
    proof (cases rule: step_cases)
      case (reuse q lv msg i r)
      have "bufPool l ! i \<in> set (bufPool l)" using reuse(4) by simp
      then have "bufPool l ! i \<noteq> a" using own(2) by auto
      moreover have "q \<noteq> p" using reuse(2) pend by auto
      ultimately show ?thesis using pend by (simp add: reuse(6))
    next
      case (alloc q lv msg pick r)
      have "fresh l \<noteq> a" using own(1) by simp
      moreover have "q \<noteq> p" using alloc(2) pend by auto
      ultimately show ?thesis using pend by (simp add: alloc(5))
    next
      case (send q b)
      then show ?thesis using pend by (cases "q = p") simp_all
    next
      case (abort q b)
      then show ?thesis using nd by simp
    qed (use pend in simp_all)
  qed
  show ?thesis using call sel keep by (blast)
qed

theorem enqueue_blocks_never_drops_witness:
  "\<exists>l1 l2.
     run [ELog 0 INFO ''a'' None] (New ''T0'' [WithChannelSize 1]) = Ok l1 \<and>
     \<not> done_closed l1 \<and> pending l1 0 = Some 0 \<and> length (ch l1) < ch_cap l1 \<and>
     (\<exists>l'. step (ESelect 0 TakeSend) l1 = Ok l' \<and> ch l' = ch l1 @ [0]) \<and>
     step (ESelect 0 TakeDone) l1 = Blocked \<and>
     run [ELog 0 INFO ''a'' None, ESelect 0 TakeSend, ELog 1 WARN ''b'' None]
       (New ''T0'' [WithChannelSize 1]) = Ok l2 \<and>
     \<not> done_closed l2 \<and> pending l2 1 = Some 1 \<and> \<not> length (ch l2) < ch_cap l2 \<and>
     step (ESelect 1 TakeSend) l2 = Blocked \<and> step (ESelect 1 TakeDone) l2 = Blocked"
proof -
  let ?L = "New ''T0'' [WithChannelSize 1]"
  have "ends_in (run [ELog 0 INFO ''a'' None] ?L)
          (\<lambda>l. \<not> done_closed l \<and> pending l 0 = Some 0 \<and> length (ch l) < ch_cap l)"
    by code_simp
  then have "\<exists>l. run [ELog 0 INFO ''a'' None] ?L = Ok l \<and>
          (\<not> done_closed l \<and> pending l 0 = Some 0 \<and> length (ch l) < ch_cap l)"
    by (rule ends_inD)
  then obtain l1 where l1: "run [ELog 0 INFO ''a'' None] ?L = Ok l1" "\<not> done_closed l1"
    "pending l1 0 = Some 0" "length (ch l1) < ch_cap l1"
    by (elim exE conjE)
  have "ends_in (run [ELog 0 INFO ''a'' None, ESelect 0 TakeSend, ELog 1 WARN ''b'' None] ?L)
          (\<lambda>l. \<not> done_closed l \<and> pending l 1 = Some 1 \<and> \<not> length (ch l) < ch_cap l)"
    by code_simp
  then have "\<exists>l. run [ELog 0 INFO ''a'' None, ESelect 0 TakeSend, ELog 1 WARN ''b'' None] ?L = Ok l \<and>
          (\<not> done_closed l \<and> pending l 1 = Some 1 \<and> \<not> length (ch l) < ch_cap l)"
    by (rule ends_inD)
  then obtain l2 where l2:
    "run [ELog 0 INFO ''a'' None, ESelect 0 TakeSend, ELog 1 WARN ''b'' None] ?L = Ok l2"
    "\<not> done_closed l2" "pending l2 1 = Some 1" "\<not> length (ch l2) < ch_cap l2"
    by (elim exE conjE)
  note t1 = enqueue_blocks_never_drops [OF l1(1,2), THEN conjunct2, THEN spec, THEN spec,
      THEN mp, OF l1(3)]
  note t2 = enqueue_blocks_never_drops [OF l2(1,2), THEN conjunct2, THEN spec, THEN spec,
      THEN mp, OF l2(3)]
  have a1: "\<exists>l'. step (ESelect 0 TakeSend) l1 = Ok l' \<and> ch l' = ch l1 @ [0]"
    using t1 [THEN conjunct1, THEN mp, OF l1(4)] by (blast)
  have a2: "step (ESelect 0 TakeDone) l1 = Blocked"
    by (rule t1 [THEN conjunct2, THEN conjunct2, THEN conjunct1])
  have b1: "step (ESelect 1 TakeSend) l2 = Blocked"
    by (rule t2 [THEN conjunct2, THEN conjunct1, THEN mp, OF l2(4)])
  have b2: "step (ESelect 1 TakeDone) l2 = Blocked"
    by (rule t2 [THEN conjunct2, THEN conjunct2, THEN conjunct1])
  show ?thesis
    by (rule exI [of _ l1], rule exI [of _ l2]) (intro conjI l1 a1 a2 l2 b1 b2)
qed


subsection \<open>C2: drain, flush, close\<close>











subsection \<open>C6: where the timestamp comes from\<close>

lemma step_ts:
  assumes "step e l = Ok l'"
  shows "ts l' = (case e of ETsTick x \<Rightarrow> x | _ \<Rightarrow> ts l)"
  using assms by (cases rule: step_cases) auto

lemma run_ts: "run es l = Ok l' \<Longrightarrow> ts l' = published (ts l) es"
proof (induction es arbitrary: l)
  case Nil
  then show ?case by (simp add: published_def)
next
  case (Cons e es)
  then obtain l1 where l1: "step e l = Ok l1" "run es l1 = Ok l'"
    by (auto split: result.splits)
  have "ts l' = published (ts l1) es" using l1(2) by (rule Cons.IH)
  then show ?case using step_ts [OF l1(1)] by (simp add: published_def)
qed

text \<open>
  C6, as stated, fails: \<^verbatim>\<open>log\<close> of part_000 calls \<^verbatim>\<open>time.Now()\<close> and formats it on
  every call. Two calls on the same logger at two readings of the clock queue records
  with two timestamps; the logger holds no snapshot.
\<close>

theorem log_p0_reads_clock:
  "\<exists>l la lb. New_p0 [] False = Some l \<and>
      log_p0 TakeSend None ''2024-01-01 00:00:01'' INFO ''m'' l = Ok la \<and>
      log_p0 TakeSend None ''2024-01-01 00:00:02'' INFO ''m'' l = Ok lb \<and>
      ch_p0 la = [''2024-01-01 00:00:01 [INFO] m'' @ [CHR 0x0A]] \<and>
      ch_p0 lb = [''2024-01-01 00:00:02 [INFO] m'' @ [CHR 0x0A]] \<and>
      ch_p0 la \<noteq> ch_p0 lb"
proof -
  obtain l where l: "New_p0 [] False = Some l" "\<not> done_closed_p0 l" "level_p0 l = ucast INFO"
    "ch_p0 l = []"
    by (simp add: New_p0_def)
  have lv: "\<not> INFO <s scast (level_p0 l)"
    by (simp add: l(3) INFO_def word_sless_alt)
  have room: "length (ch_p0 l) < 4096" by (simp add: l(4))
  note a = log_p0_room [OF l(2) lv room levelNames_at_known(2), of TakeSend None
      "''2024-01-01 00:00:01''" "''m''"]
  note b = log_p0_room [OF l(2) lv room levelNames_at_known(2), of TakeSend None
      "''2024-01-01 00:00:02''" "''m''"]
  show ?thesis using l(1,4) a b by (simp)
qed

text \<open>
  C6, amended to the revision with the cached timestamp. In every execution of
  speedlog.go, a call of \<^verbatim>\<open>log\<close> or \<^verbatim>\<open>logf\<close> that passes the level check builds a
  record that starts with the snapshot held in \<open>ts\<close> at the time of the call, and that
  snapshot is the one published last: the stamp of the last tick of the timestamp
  goroutine, or the stamp stored by \<^verbatim>\<open>New\<close> when there was no tick. The call takes no
  reading of the clock. (part_000 reads the clock and formats it on every call.)
\<close>

theorem log_uses_published_timestamp:
  assumes reach: "run es (New now opts) = Ok l"
    and pn: "pending l p = None" and en: "IsLevelEnabled l lv"
  shows "ts l = published now es \<and>
         (\<exists>a l'. step (ELog p lv msg pick) l = Ok l' \<and> pending l' p = Some a \<and>
                  heap l' a = published now es @ '' '' @ tag_of lv @ '' '' @ msg @ [CHR 0x0A]) \<and>
         (\<exists>a l'. step (ELogf p lv msg pick) l = Ok l' \<and> pending l' p = Some a \<and>
                  heap l' a = published now es @ '' '' @ tag_of lv @ '' '' @ msg @ [CHR 0x0A])"
proof -
  have t: "ts l = published now es"
    using run_ts [OF reach] New_pristine(4) [of now opts] by simp
  obtain a l1 where l1: "log_format p lv msg pick l = Ok l1" "pending l1 p = Some a"
     "heap l1 = (heap l)(a := ts l @ '' '' @ tag_of lv @ '' '' @ msg @ [CHR 0x0A])"
    using log_format_enabled [OF pn en, of msg pick] by blast
  have "heap l1 a = published now es @ '' '' @ tag_of lv @ '' '' @ msg @ [CHR 0x0A]"
    using l1(3) t by simp
  with l1(1,2) t show ?thesis by (auto simp: logf_format_eq)
qed

theorem log_uses_published_timestamp_witness:
  "\<exists>l. run [ETsTick ''T1'', ELog 1 INFO ''x'' None, ETsTick ''T2''] (New ''T0'' []) = Ok l \<and>
       ts l = ''T2'' \<and>
       (\<exists>a l'. step (ELog 0 WARN ''m'' None) l = Ok l' \<and> pending l' 0 = Some a \<and>
                heap l' a = ''T2 WARN m'' @ [CHR 0x0A])"
proof -
  let ?es = "[ETsTick ''T1'', ELog 1 INFO ''x'' None, ETsTick ''T2'']"
  have "ends_in (run ?es (New ''T0'' [])) (\<lambda>l. pending l 0 = None \<and> IsLevelEnabled l WARN)"
    by code_simp
  then have "\<exists>l. run ?es (New ''T0'' []) = Ok l \<and> (pending l 0 = None \<and> IsLevelEnabled l WARN)"
    by (rule ends_inD)
  then obtain l where l: "run ?es (New ''T0'' []) = Ok l" "pending l 0 = None"
    "IsLevelEnabled l WARN"
    by (elim exE conjE)
  have p: "published ''T0'' ?es = ''T2''" by (simp add: published_def)
  note t = log_uses_published_timestamp [OF l, of "''m''" None, unfolded p]
  have a: "ts l = ''T2''" by (rule t [THEN conjunct1])
  have b: "\<exists>a l'. step (ELog 0 WARN ''m'' None) l = Ok l' \<and> pending l' 0 = Some a \<and>
                heap l' a = ''T2 WARN m'' @ [CHR 0x0A]"
    using t [THEN conjunct2, THEN conjunct1] by (simp add: tag_of_names)
  show ?thesis by (rule exI [of _ l]) (intro conjI l(1) a b)
qed


subsection \<open>C8: the bytes of a record\<close>

lemma step_keeps_owned_bytes:
  assumes inv: "inv_own l" and own: "pending l p = Some a \<or> a \<in> set (ch l)"
    and st: "step e l = Ok l'"
  shows "heap l' a = heap l a"
proof -
  have o: "a < fresh l" "a \<notin> set (bufPool l)"
    using inv own by (auto simp: inv_own_def)
  from st show ?thesis
  proof (cases rule: step_cases)
    case (reuse q lv msg i r)
    have "bufPool l ! i \<in> set (bufPool l)" using reuse(4) by simp
    then have "bufPool l ! i \<noteq> a" using o(2) by auto
    then show ?thesis by (simp add: reuse(6))
  next
    case (alloc q lv msg pick r)
    have "fresh l \<noteq> a" using o(1) by simp
    then show ?thesis by (simp add: alloc(5))
  qed simp_all
qed

lemma log_main_known:
  assumes "DEBUG \<le>s lv" "lv \<le>s ERROR" "\<not> lv <s level_main m"
  shows "log_main pick now lv msg m =
     Ok (m\<lparr>io_main := io_main m
              @ writes (now @ '' ['' @ levelNames ! nat (sint lv) @ ''] '' @ msg @ [CHR 0x0A]) (writers_main m)
              @ flushes (writers_main m),
           bufPool_main := pool_take_p0 pick (bufPool_main m)
              @ [now @ '' ['' @ levelNames ! nat (sint lv) @ ''] '' @ msg @ [CHR 0x0A]]\<rparr>)"
proof -
  have "levelNames_at lv = Inr (levelNames ! nat (sint lv))"
    using assms(1,2) in_range_iff [of lv] by (simp add: levelNames_at_def)
  then show ?thesis using assms(3) by (simp add: log_main_def record_bytes_p0_def)
qed

text \<open>
  C8, as stated, fails: \<^verbatim>\<open>log\<close> of main.go puts the level name in brackets. The
  default logger, called with INFO and the message \<open>x\<close> at clock reading \<open>T\<close>, writes
  \<open>T [INFO] x\<close> and not \<open>T INFO x\<close>.
\<close>

theorem log_main_brackets:
  "\<exists>l'. log_main None ''T'' INFO ''x'' std_main = Ok l' \<and>
        sink_writes 0 (io_main l') = [''T [INFO] x'' @ [CHR 0x0A]] \<and>
        ''T [INFO] x'' @ [CHR 0x0A] \<noteq> ''T'' @ '' '' @ ''INFO'' @ '' '' @ ''x'' @ [CHR 0x0A]"
proof -
  have "ends_in (log_main None ''T'' INFO ''x'' std_main)
          (\<lambda>l'. sink_writes 0 (io_main l') = [''T [INFO] x'' @ [CHR 0x0A]])"
    by code_simp
  then have "\<exists>l'. log_main None ''T'' INFO ''x'' std_main = Ok l' \<and>
          sink_writes 0 (io_main l') = [''T [INFO] x'' @ [CHR 0x0A]]"
    by (rule ends_inD)
  then show ?thesis by simp
qed

text \<open>
  C8, amended. In speedlog.go every record is exactly
  \<open>timestamp, space, tag, space, message, newline\<close>, where the tag is the name of the level
  for DEBUG..ERROR (and UNK for any other value); from the moment it is built, while its
  producer stands at the \<^verbatim>\<open>select\<close> and while it waits in the queue, no step of any
  goroutine changes its bytes, and the writer writes these bytes to every sink. In
  main.go the record of a level of DEBUG..ERROR is
  \<open>timestamp, space, [, name, ], space, message, newline\<close>.
\<close>

theorem record_layout:
  assumes reach: "run es (New now opts) = Ok l"
  shows "(\<forall>p lv msg pick. pending l p = None \<and> IsLevelEnabled l lv \<longrightarrow>
            (\<exists>a l'. step (ELog p lv msg pick) l = Ok l' \<and> pending l' p = Some a \<and>
               heap l' a = ts l @ '' '' @ tag_of lv @ '' '' @ msg @ [CHR 0x0A])) \<and>
         (\<forall>lv. DEBUG \<le>s lv \<and> lv \<le>s ERROR \<longrightarrow> tag_of lv = levelNames ! nat (sint lv)) \<and>
         (\<forall>p a e l'. (pending l p = Some a \<or> a \<in> set (ch l)) \<and> step e l = Ok l' \<longrightarrow>
            heap l' a = heap l a) \<and>
         (\<forall>l'. step EWriterRecv l = Ok l' \<longrightarrow>
            (\<exists>a. ch l = a # ch l' \<and> io l' = io l @ writes (heap l a) (writers l))) \<and>
         (\<forall>pick t lv msg m. DEBUG \<le>s lv \<and> lv \<le>s ERROR \<and> \<not> lv <s level_main m \<longrightarrow>
            (\<exists>m'. log_main pick t lv msg m = Ok m' \<and>
               io_main m' = io_main m
                 @ writes (t @ '' ['' @ levelNames ! nat (sint lv) @ ''] '' @ msg @ [CHR 0x0A])
                     (writers_main m)
                 @ flushes (writers_main m)))"
proof -
  have inv: "inv_own l" using reach reachable_invariant by (auto simp: invariant_def)
  have built: "\<exists>a l'. step (ELog p lv msg pick) l = Ok l' \<and> pending l' p = Some a \<and>
               heap l' a = ts l @ '' '' @ tag_of lv @ '' '' @ msg @ [CHR 0x0A]"
    if pn: "pending l p = None" and en: "IsLevelEnabled l lv" for p lv msg pick
  proof -
    obtain a l1 where "log_format p lv msg pick l = Ok l1" "pending l1 p = Some a"
      "heap l1 = (heap l)(a := ts l @ '' '' @ tag_of lv @ '' '' @ msg @ [CHR 0x0A])"
      using log_format_enabled [OF pn en, of msg pick] by blast
    then show ?thesis by auto
  qed
  have tag: "tag_of lv = levelNames ! nat (sint lv)" if "DEBUG \<le>s lv \<and> lv \<le>s ERROR" for lv
    using that by (simp add: tag_of_def)
  have kept: "heap l' a = heap l a"
    if "(pending l p = Some a \<or> a \<in> set (ch l)) \<and> step e l = Ok l'" for p a e l'
    using step_keeps_owned_bytes [OF inv, of p a e l'] that by blast
  have recv: "\<exists>a. ch l = a # ch l' \<and> io l' = io l @ writes (heap l a) (writers l)"
    if "step EWriterRecv l = Ok l'" for l'
    using that by (cases rule: step_cases) simp_all
  have main: "\<exists>m'. log_main pick t lv msg m = Ok m' \<and>
               io_main m' = io_main m
                 @ writes (t @ '' ['' @ levelNames ! nat (sint lv) @ ''] '' @ msg @ [CHR 0x0A])
                     (writers_main m)
                 @ flushes (writers_main m)"
    if "DEBUG \<le>s lv \<and> lv \<le>s ERROR \<and> \<not> lv <s level_main m" for pick t lv msg m
    using that log_main_known [of lv m pick t msg] by simp
  show ?thesis
    using built tag kept recv main by (blast)
qed

theorem record_layout_witness:
  "\<exists>l. run [ELog 0 INFO ''hello'' None, ESelect 0 TakeSend] (New ''T0'' []) = Ok l \<and>
       ch l = [0] \<and> heap l 0 = ''T0 INFO hello'' @ [CHR 0x0A] \<and>
       (\<exists>a l'. step (ELog 1 ERROR ''e'' None) l = Ok l' \<and> pending l' 1 = Some a \<and>
          heap l' a = ''T0 ERROR e'' @ [CHR 0x0A] \<and> heap l' 0 = ''T0 INFO hello'' @ [CHR 0x0A]) \<and>
       (\<exists>m'. log_main None ''T'' WARN ''w'' std_main = Ok m' \<and>
          io_main m' = [(0, SinkWrite (''T [WARN] w'' @ [CHR 0x0A])), (0, SinkFlush)])"
proof -
  let ?es = "[ELog 0 INFO ''hello'' None, ESelect 0 TakeSend]"
  have "ends_in (run ?es (New ''T0'' [])) (\<lambda>l. ch l = [0] \<and>
          heap l 0 = ''T0 INFO hello'' @ [CHR 0x0A] \<and> pending l 1 = None \<and>
          IsLevelEnabled l ERROR \<and> ts l = ''T0'')"
    by code_simp
  then have "\<exists>l. run ?es (New ''T0'' []) = Ok l \<and> (ch l = [0] \<and>
          heap l 0 = ''T0 INFO hello'' @ [CHR 0x0A] \<and> pending l 1 = None \<and>
          IsLevelEnabled l ERROR \<and> ts l = ''T0'')"
    by (rule ends_inD)
  then obtain l where l: "run ?es (New ''T0'' []) = Ok l" "ch l = [0]"
    "heap l 0 = ''T0 INFO hello'' @ [CHR 0x0A]" "pending l 1 = None" "IsLevelEnabled l ERROR"
    "ts l = ''T0''"
    by (elim exE conjE)
  note t = record_layout [OF l(1)]
  have "\<exists>a l'. step (ELog 1 ERROR ''e'' None) l = Ok l' \<and> pending l' 1 = Some a \<and>
               heap l' a = ts l @ '' '' @ tag_of ERROR @ '' '' @ ''e'' @ [CHR 0x0A]"
    using t [THEN conjunct1, THEN spec, THEN spec, THEN spec, THEN spec, THEN mp,
        of 1 ERROR "''e''" None] l(4,5)
    by simp
  then obtain a l' where l': "step (ELog 1 ERROR ''e'' None) l = Ok l'" "pending l' 1 = Some a"
    "heap l' a = ''T0 ERROR e'' @ [CHR 0x0A]"
    by (auto simp: l(6) tag_of_names)
  have q: "(pending l 0 = Some 0 \<or> 0 \<in> set (ch l)) \<and> step (ELog 1 ERROR ''e'' None) l = Ok l'"
    using l(2) l'(1) by simp
  have "heap l' 0 = heap l 0"
    by (rule t [THEN conjunct2, THEN conjunct2, THEN conjunct1, THEN spec, THEN spec,
          THEN spec, THEN spec, THEN mp, OF q])
  then have kept: "heap l' 0 = ''T0 INFO hello'' @ [CHR 0x0A]" using l(3) by simp
  have first: "\<exists>a l'. step (ELog 1 ERROR ''e'' None) l = Ok l' \<and> pending l' 1 = Some a \<and>
          heap l' a = ''T0 ERROR e'' @ [CHR 0x0A] \<and> heap l' 0 = ''T0 INFO hello'' @ [CHR 0x0A]"
    by (rule exI [of _ a], rule exI [of _ l']) (intro conjI l' kept)
  have h: "DEBUG \<le>s WARN \<and> WARN \<le>s ERROR \<and> \<not> WARN <s level_main std_main"
    by (simp add: std_main_def DEBUG_def INFO_def WARN_def ERROR_def word_sle_eq word_sless_alt)
  have "\<exists>m'. log_main None ''T'' WARN ''w'' std_main = Ok m' \<and>
               io_main m' = io_main std_main
                 @ writes (''T'' @ '' ['' @ levelNames ! nat (sint WARN) @ ''] '' @ ''w'' @ [CHR 0x0A])
                     (writers_main std_main)
                 @ flushes (writers_main std_main)"
    by (rule t [THEN conjunct2, THEN conjunct2, THEN conjunct2, THEN conjunct2, THEN spec,
          THEN spec, THEN spec, THEN spec, THEN spec, THEN mp, OF h])
  then have second: "\<exists>m'. log_main None ''T'' WARN ''w'' std_main = Ok m' \<and>
          io_main m' = [(0, SinkWrite (''T [WARN] w'' @ [CHR 0x0A])), (0, SinkFlush)]"
    by (simp add: std_main_def writes_def flushes_def levelNames_def WARN_def)
  show ?thesis by (rule exI [of _ l]) (intro conjI l(1,2,3) first second)
qed


subsection \<open>No step of speedlog.go panics\<close>

lemma log_format_no_panic: "log_format p lv msg pick l \<noteq> Panic x"
proof (cases "pool_Get pick l")
  case (Pair a l1)
  obtain r where r: "record_bytes (ts l) lv msg = Inr r"
    using record_bytes_total by blast
  have "ts (snd (pool_Get pick l)) = ts l"
    by (simp add: pool_Get_def pool_New_def split: option.splits)
  then have "ts l1 = ts l" using Pair by simp
  with Pair r show ?thesis by (simp add: log_format_def)
qed

lemma step_no_panic:
  assumes "inv_ctl l"
  shows "step e l \<noteq> Panic x"
proof (cases e)
  case (ELog p lv msg pick)
  then show ?thesis using log_format_no_panic [of p lv msg pick l] by simp
next
  case (ELogf p lv msg pick)
  then show ?thesis using log_format_no_panic [of p lv msg pick l]
    by (simp add: logf_format_eq)
next
  case (ESelect p c)
  then show ?thesis
    by (simp add: log_select_def pool_Put_def split: option.splits select_pick.splits)
next
  case EWriterRecv
  then show ?thesis by (simp add: writerLoop_recv_def split: list.splits)
next
  case EWriterTick
  then show ?thesis by (simp add: writerLoop_tick_def)
next
  case EWriterDone
  then show ?thesis by (simp add: writerLoop_done_def)
next
  case EWriterDefault
  then show ?thesis using assms
    by (auto simp: writerLoop_default_def wg_Done_def flushAll_def inv_ctl_def)
next
  case ETsDone
  then show ?thesis using assms
    by (auto simp: timestampLoop_done_def wg_Done_def inv_ctl_def)
next
  case (ETsTick s)
  then show ?thesis by (simp add: timestampLoop_tick_def)
next
  case ECloseEnter
  then show ?thesis using assms
    by (auto simp: Close_enter_def inv_ctl_def split: once.splits)
next
  case ECloseFinish
  then show ?thesis by (simp add: Close_finish_def)
qed (simp_all add: Sync_def)

lemma run_no_panic: "inv_ctl l \<Longrightarrow> run es l \<noteq> Panic x"
proof (induction es arbitrary: l)
  case Nil
  then show ?case by simp
next
  case (Cons e es)
  show ?case
  proof (cases "step e l")
    case Blocked
    then show ?thesis by simp
  next
    case (Panic y)
    then show ?thesis using step_no_panic [OF Cons.prems] by simp
  next
    case (Ok l1)
    then have "inv_ctl l1" using Cons.prems step_inv_ctl by blast
    then show ?thesis using Cons.IH Ok by simp
  qed
qed

subsection \<open>C4: Close twice\<close>

text \<open>
  In speedlog.go the Once makes Close idempotent: in every reachable state where Close
  has been entered, another call of Close cannot panic, waits while the first call runs,
  and once the first call has finished returns without any effect, while no writer has
  received more than one \<^verbatim>\<open>Close\<close>.
\<close>

lemma Close_once:
  assumes reach: "run es (New now opts) = Ok l" and entered: "closeOnce l \<noteq> NotStarted"
  shows "(\<forall>x. step ECloseEnter l \<noteq> Panic x) \<and>
         (closeOnce l = InProgress \<longrightarrow> step ECloseEnter l = Blocked) \<and>
         (closeOnce l = Completed \<longrightarrow> step ECloseEnter l = Ok l \<and> step ECloseFinish l = Blocked) \<and>
         (\<forall>i < length (writers l). count_list (io l) (i, SinkClose) \<le> 1)"
proof -
  have inv: "invariant l" using reach by (rule reachable_invariant)
  then have "\<forall>i < length (writers l). count_list (io l) (i, SinkClose) \<le> 1"
    by (simp add: invariant_def inv_close_def)
  then show ?thesis using entered
    by (cases "closeOnce l") (simp_all add: Close_enter_def Close_finish_def)
qed

text \<open>
  C4 fails on part_000: \<^verbatim>\<open>Close\<close> there starts with \<^verbatim>\<open>close(l.done)\<close> without a
  latch. The first call on the default logger succeeds; the second call closes a closed
  channel, which panics.
\<close>

theorem Close_p0_twice_panics:
  "\<exists>l l'. New_p0 [] False = Some l \<and> Close_p0 l = Ok l' \<and>
      io_p0 l' = [(0, SinkFlush), (0, SinkFlush), (0, SinkClose)] \<and>
      Close_p0 l' = Panic CloseOfClosedChannel"
  by (simp add: New_p0_def Close_p0_def runWriter_drain_p0_def flush_all_p0_def
      close_writers_p0_def flushes_def closes_def)

subsection \<open>C7: log after Close\<close>

text \<open>
  In speedlog.go, once Close has finished: no step writes a record to a sink (the
  writer has returned), and a producer at the \<^verbatim>\<open>select\<close> can always take the
  \<^verbatim>\<open>done\<close> branch, which puts its buffer into the pool.
\<close>

lemma log_after_Close:
  assumes reach: "run es (New now opts) = Ok l" and fin: "closeOnce l = Completed"
  shows "(\<forall>e l' i. step e l = Ok l' \<longrightarrow> sink_writes i (io l') = sink_writes i (io l)) \<and>
         (\<forall>p a. pending l p = Some a \<longrightarrow>
            (\<exists>l'. step (ESelect p TakeDone) l = Ok l' \<and> bufPool l' = bufPool l @ [a] \<and>
                  ch l' = ch l \<and> io l' = io l))"
proof -
  have inv: "invariant l" using reach by (rule reachable_invariant)
  then have ctl: "writer_st l = Stopped" "done_closed l"
    using fin by (auto simp: invariant_def inv_ctl_def)
  have a: "sink_writes i (io l') = sink_writes i (io l)" if "step e l = Ok l'" for e l' i
    using that ctl(1) by (cases rule: step_cases) (simp_all add: sink_writes_append)
  have b: "\<exists>l'. step (ESelect p TakeDone) l = Ok l' \<and> bufPool l' = bufPool l @ [a] \<and>
                  ch l' = ch l \<and> io l' = io l" if "pending l p = Some a" for p a
    using that ctl(2) by (simp add: log_select_def pool_Put_def)
  show ?thesis using a b by blast
qed

text \<open>
  C7 fails on speedlog.go: after Close has returned, the channel still has room, so both
  branches of the \<^verbatim>\<open>select\<close> in \<^verbatim>\<open>log\<close> are ready and Go may take the send. Then
  the record is queued although no writer will ever take it, and the buffer taken from
  the pool is not put back.
\<close>

theorem log_after_Close_may_enqueue:
  "ends_in (run [ECloseEnter, EWriterDone, EWriterDefault, ETsDone, ECloseFinish] (New ''T0'' []))
     (\<lambda>l. closeOnce l = Completed \<and> writer_st l = Stopped \<and> ch l = [] \<and> bufPool l = [] \<and>
        ends_in (run [ELog 0 INFO ''late'' None, ESelect 0 TakeSend] l)
          (\<lambda>l'. ch l' = [0] \<and> heap l' 0 = ''T0 INFO late'' @ [CHR 0x0A] \<and>
                bufPool l' = [] \<and> pending l' 0 = None \<and> io l' = io l \<and>
                writer_st l' = Stopped))"
  by (code_simp)

end
